theory Spec2Isabelle
  imports
    Main
    "HOL-Library.Word"
    "HOL-Library.AList"
    "HOL-Library.Sublist"
    "HOL-Library.Extended_Nat"
begin

unbundle bit_operations_syntax

section \<open>Buffers\<close>

text \<open>
  A buffer (\<^verbatim>\<open>b4a\<close> / \<^verbatim>\<open>Uint8Array\<close>) is a list of bytes. Offsets, sizes and page indices
  are natural numbers. Where the source subtracts and the difference can be negative
  (\<^verbatim>\<open>this._size - pageOffset\<close>, \<^verbatim>\<open>end - req.offset\<close>) the result is only compared with
  \<^verbatim>\<open>0\<close> or passed to \<^verbatim>\<open>Math.min\<close> and then compared with \<^verbatim>\<open>0\<close>, so the truncating
  subtraction of \<open>nat\<close> takes the same branch; \<^verbatim>\<open>Math.floor((end - 1) / pageSize)\<close> is
  negative for \<^verbatim>\<open>end = 0\<close> and is written out where it occurs.

  The source computes with JavaScript numbers, which are IEEE doubles: sums, products,
  remainders and floored quotients of whole numbers are exact as long as the operands and the
  exact result are at most \<open>2 ^ 53\<close>, and are rounded beyond. The natural numbers of the model
  are the numbers of the source on that range, and the theorems about reads, writes, flushes
  and truncates are stated for ranges that end at or below \<open>2 ^ 53\<close>.
\<close>

type_synonym byte = "8 word"
type_synonym buffer = "byte list"

datatype error = Error (message: string)

text \<open>\<^verbatim>\<open>b4a.alloc(n, 0)\<close>\<close>

definition alloc :: "nat \<Rightarrow> buffer" where
  "alloc n = replicate n 0"

text \<open>\<^verbatim>\<open>buf.subarray(begin, end)\<close>: both ends are clamped to the length of the buffer.\<close>

definition subarray :: "buffer \<Rightarrow> nat \<Rightarrow> nat \<Rightarrow> buffer" where
  "subarray buf b e = take (e - b) (drop b buf)"

text \<open>
  \<^verbatim>\<open>buf.set(src, pos)\<close> copies \<open>src\<close> into \<open>buf\<close> from index \<open>pos\<close> on. JavaScript throws a
  \<^verbatim>\<open>RangeError\<close> when \<open>src\<close> does not fit; every call of the source passes a \<open>src\<close> that fits
  (see \<open>buffer_set_length\<close> for the length when it does).
\<close>

definition buffer_set :: "buffer \<Rightarrow> buffer \<Rightarrow> nat \<Rightarrow> buffer" where
  "buffer_set buf src pos = take pos buf @ src @ drop (pos + length src) buf"

text \<open>\<^verbatim>\<open>src.copy(target)\<close>: copy \<open>src\<close> to the start of \<open>target\<close>, as much as fits.\<close>

definition buffer_copy :: "buffer \<Rightarrow> buffer \<Rightarrow> buffer" where
  "buffer_copy src target = buffer_set target (take (length target) src) 0"

text \<open>\<^verbatim>\<open>buf.fill(v, start, end)\<close>: the range is clamped to the buffer.\<close>

definition buffer_fill :: "buffer \<Rightarrow> byte \<Rightarrow> nat \<Rightarrow> nat \<Rightarrow> buffer" where
  "buffer_fill buf v b e =
     take b buf @ replicate (min e (length buf) - b) v @ drop e buf"

text \<open>\<^verbatim>\<open>message.includes(sub)\<close>\<close>

definition msg_includes :: "string \<Rightarrow> string \<Rightarrow> bool" where
  "msg_includes msg sub = sublist sub msg"

section \<open>The underlying storage\<close>

text \<open>
  Modelled from the spec: the backend adapter of section 4.A, which is not code of this
  repository. The tests and the readme put a \<^verbatim>\<open>random-access-memory\<close> instance under the
  layer; the model is that store: \<open>read\<close> yields exactly the bytes asked for or fails with
  \<^verbatim>\<open>Could not satisfy length\<close>, \<open>write\<close> writes the whole buffer and extends the store with
  zeros where needed, \<open>truncate\<close> sets the length, \<open>stat\<close> yields the length. \<open>methods\<close>
  lists the operations the object has (\<^verbatim>\<open>typeof this._underlying[methodName] === 'function'\<close>).
\<close>

record backend =
  contents :: buffer
  methods :: "string list"

definition b_read :: "backend \<Rightarrow> nat \<Rightarrow> nat \<Rightarrow> error + buffer" where
  "b_read b offset n =
     (if offset + n > length (contents b) then Inl (Error ''Could not satisfy length'')
      else Inr (take n (drop offset (contents b))))"

definition b_write :: "backend \<Rightarrow> nat \<Rightarrow> buffer \<Rightarrow> error + backend" where
  "b_write b offset buf =
     (let c = contents b;
          c1 = c @ replicate (offset + length buf - length c) 0
      in Inr (b\<lparr>contents := take offset c1 @ buf @ drop (offset + length buf) c1\<rparr>))"

definition b_truncate :: "backend \<Rightarrow> nat \<Rightarrow> error + backend" where
  "b_truncate b n =
     Inr (b\<lparr>contents := take n (contents b) @ replicate (n - length (contents b)) 0\<rparr>)"

definition b_stat :: "backend \<Rightarrow> error + nat" where
  "b_stat b = Inr (length (contents b))"

definition b_open :: "backend \<Rightarrow> error + backend" where
  "b_open b = Inr b"

section \<open>The layered store\<close>

record page =
  data :: buffer
  modified :: bool

text \<open>
  The fields of \<^verbatim>\<open>RandomAccessLayeredStorage\<close>. \<^verbatim>\<open>_pages\<close> is a JavaScript \<^verbatim>\<open>Map\<close>: an
  association list in insertion order (\<open>AList.update\<close> keeps the place of a key that is
  present and appends a new one, as \<^verbatim>\<open>Map.set\<close> does). \<^verbatim>\<open>_lru\<close> holds the keys of the
  \<^verbatim>\<open>LRUCache\<close>, most recently used first, which is the order of \<^verbatim>\<open>LRUCache.keys()\<close>; the value
  stored with every key is \<^verbatim>\<open>true\<close>. \<^verbatim>\<open>_accessTimes\<close> is written with \<^verbatim>\<open>Date.now()\<close> and never
  read; it is left out. \<open>overlay_size\<close> is the field \<^verbatim>\<open>_size\<close>.
\<close>

record 'u store =
  underlying :: 'u
  pageSize :: nat
  maxPages :: nat
  createIfMissing :: bool
  strictSizeLimit :: "nat option"
  flushOnClose :: bool
  autoFlushOnEvict :: bool
  pages :: "(nat \<times> page) list"
  lru :: "nat list"
  pinnedPages :: "nat set"
  bitmask :: "buffer option"
  overlay_size :: nat
  fileExists :: bool
  modifiedPages :: "nat set"
  opened :: bool

text \<open>The constructor's options; \<open>None\<close> is an option that is not given.\<close>

record opts =
  opt_pageSize :: "nat option"
  opt_maxPages :: "nat option"
  opt_createIfMissing :: "bool option"
  opt_strictSizeEnforcement :: "nat option"
  opt_flushOnClose :: "bool option"
  opt_autoFlushOnEvict :: "bool option"

text \<open>\<^verbatim>\<open>opts.x || d\<close>: the default also replaces \<^verbatim>\<open>0\<close>.\<close>

definition or_default :: "nat option \<Rightarrow> nat \<Rightarrow> nat" where
  "or_default v d = (case v of None \<Rightarrow> d | Some n \<Rightarrow> if n = 0 then d else n)"

text \<open>\<^verbatim>\<open>opts.x !== undefined ? opts.x : d\<close>\<close>

definition if_defined :: "bool option \<Rightarrow> bool \<Rightarrow> bool" where
  "if_defined v d = (case v of None \<Rightarrow> d | Some b \<Rightarrow> b)"

text \<open>The field initialisers of the constructor (lines 11 to 23 and 31 to 59).\<close>

definition construct :: "'u \<Rightarrow> opts \<Rightarrow> 'u store" where
  "construct underlyingStorage opts =
     \<lparr> underlying = underlyingStorage,
       pageSize = or_default (opt_pageSize opts) (1024 * 1024),
       maxPages = or_default (opt_maxPages opts) 100,
       createIfMissing = if_defined (opt_createIfMissing opts) True,
       strictSizeLimit = opt_strictSizeEnforcement opts,
       flushOnClose = if_defined (opt_flushOnClose opts) True,
       autoFlushOnEvict = if_defined (opt_autoFlushOnEvict opts) True,
       pages = [],
       lru = [],
       pinnedPages = {},
       bitmask = None,
       overlay_size = 0,
       fileExists = False,
       modifiedPages = {},
       opened = False \<rparr>"

text \<open>
  What the constructor is given as underlying storage: another layered store
  (\<^verbatim>\<open>underlyingStorage instanceof RandomAccessLayeredStorage\<close>) or any other storage object.
\<close>

datatype ('l, 'o) storage = Layered (layer: 'l) | Other (other: 'o)

text \<open>
  The constructor. The underlying object is shared, so the assignment to its
  \<^verbatim>\<open>_strictSizeLimit\<close> (lines 25 to 28) is visible through \<open>underlying\<close> of the new store.
\<close>

definition constructor ::
  "('v store, 'o) storage \<Rightarrow> opts \<Rightarrow> (('v store, 'o) storage) store" where
  "constructor underlyingStorage opts =
     (let this = construct underlyingStorage opts
      in case underlyingStorage of
           Layered l \<Rightarrow> this\<lparr>underlying := Layered (l\<lparr>strictSizeLimit := strictSizeLimit this\<rparr>)\<rparr>
         | Other _ \<Rightarrow> this)"

type_synonym lstore = "backend store"

text \<open>\<^verbatim>\<open>_supports(methodName)\<close>\<close>

definition supports :: "lstore \<Rightarrow> string \<Rightarrow> bool" where
  "supports s methodName = (methodName \<in> set (methods (underlying s)))"

subsection \<open>Bitmask\<close>

definition setBitmask :: "buffer \<Rightarrow> 'u store \<Rightarrow> 'u store" where
  "setBitmask bitmaskBuffer s = s\<lparr>bitmask := Some bitmaskBuffer\<rparr>"

definition clearBitmask :: "'u store \<Rightarrow> 'u store" where
  "clearBitmask s = s\<lparr>bitmask := None\<rparr>"

text \<open>The body of the loop of \<^verbatim>\<open>_isBitSet\<close> for one \<open>bitIndex\<close>: false makes the loop return false.\<close>

definition bitSetAt :: "buffer \<Rightarrow> nat \<Rightarrow> bool" where
  "bitSetAt bm bitIndex =
     (let byteIndex = bitIndex div 8;
          bitInByte = bitIndex mod 8
      in if byteIndex \<ge> length bm then False
         else (drop_bit bitInByte (bm ! byteIndex)) AND 1 \<noteq> 0)"

definition isBitSet :: "'u store \<Rightarrow> nat \<Rightarrow> nat \<Rightarrow> bool" where
  "isBitSet s offset len =
     (case bitmask s of
        None \<Rightarrow> True
      | Some bm \<Rightarrow> list_all (\<lambda>i. bitSetAt bm (offset + i)) [0..<len])"

subsection \<open>Opening\<close>

text \<open>
  \<^verbatim>\<open>_open\<close>. The flag \<^verbatim>\<open>opening\<close> is set and cleared inside the call and is left out.
\<close>

definition store_open :: "lstore \<Rightarrow> error + lstore" where
  "store_open s =
     (if opened s then Inr s
      else case (if supports s ''open'' then b_open (underlying s) else Inr (underlying s)) of
             Inl err \<Rightarrow> Inl err
           | Inr u \<Rightarrow>
               let s1 = s\<lparr>underlying := u, fileExists := True\<rparr>
               in if supports s1 ''stat'' then
                    (case b_stat (underlying s1) of
                       Inl err \<Rightarrow> Inr (s1\<lparr>overlay_size := 0, opened := True\<rparr>)
                     | Inr sz \<Rightarrow>
                         Inr (s1\<lparr>overlay_size := max (overlay_size s1) sz, opened := True\<rparr>))
                  else Inr (s1\<lparr>opened := True\<rparr>))"

text \<open>
  \<^verbatim>\<open>_ensureOpen\<close>. A memory backend has no \<^verbatim>\<open>_ensureOpen\<close> of its own, so after the open the
  callback is called at once.
\<close>

definition ensureOpen :: "lstore \<Rightarrow> error + lstore" where
  "ensureOpen s = (if opened s then Inr s else store_open s)"

subsection \<open>Flush\<close>

text \<open>
  \<^verbatim>\<open>flushNext\<close> of \<^verbatim>\<open>_performFlush\<close>, on the page indices of \<^verbatim>\<open>pagesToFlush\<close> from \<^verbatim>\<open>index\<close> on.
\<close>

fun flushNext ::
  "nat \<Rightarrow> nat \<Rightarrow> nat \<Rightarrow> nat \<Rightarrow> nat list \<Rightarrow> lstore \<Rightarrow> (error + unit) \<times> lstore" where
  "flushNext offset end startPage endPage [] s =
     (if overlay_size s < end \<and> supports s ''truncate'' then
        (case b_truncate (underlying s) (overlay_size s) of
           Inl err \<Rightarrow> (Inl err, s)
         | Inr u \<Rightarrow> (Inr (), s\<lparr>underlying := u\<rparr>))
      else (Inr (), s))"
| "flushNext offset end startPage endPage (pageIndex # rest) s =
     (let pageOffset = pageIndex * pageSize s;
          startOffsetInPage = (if pageIndex = startPage then offset mod pageSize s else 0);
          endOffsetInPage =
            (if pageIndex = endPage then ((end - 1) mod pageSize s) + 1 else pageSize s);
          writeSize = endOffsetInPage - startOffsetInPage;
          page = map_of (pages s) pageIndex;
          bufferToWrite =
            (case page of
               Some pg \<Rightarrow> subarray (data pg) startOffsetInPage endOffsetInPage
             | None \<Rightarrow> alloc writeSize)
      in case b_write (underlying s) (pageOffset + startOffsetInPage) bufferToWrite of
           Inl err \<Rightarrow> (Inl err, s)
         | Inr u \<Rightarrow>
             let s1 = s\<lparr>underlying := u\<rparr>;
                 s2 = (case page of
                         Some pg \<Rightarrow>
                           if modified pg then
                             s1\<lparr>pages := AList.update pageIndex (pg\<lparr>modified := False\<rparr>) (pages s1),
                                modifiedPages := modifiedPages s1 - {pageIndex}\<rparr>
                           else s1
                       | None \<Rightarrow> s1)
             in flushNext offset end startPage endPage rest s2)"

text \<open>
  \<^verbatim>\<open>_performFlush\<close>. \<^verbatim>\<open>Math.floor((end - 1) / this.pageSize)\<close> is \<open>-1\<close> when \<open>end\<close> is \<open>0\<close>, and the
  loop that fills \<^verbatim>\<open>pagesToFlush\<close> does not run then.
\<close>

definition performFlush :: "nat \<Rightarrow> nat \<Rightarrow> lstore \<Rightarrow> (error + unit) \<times> lstore" where
  "performFlush offset sz s =
     (let end = offset + sz;
          startPage = offset div pageSize s;
          endPage = (end - 1) div pageSize s;
          pagesToFlush = (if end = 0 then [] else [startPage ..< Suc endPage])
      in flushNext offset end startPage endPage pagesToFlush s)"

definition flush :: "nat \<Rightarrow> nat \<Rightarrow> lstore \<Rightarrow> (error + unit) \<times> lstore" where
  "flush offset sz s =
     (case ensureOpen s of
        Inl err \<Rightarrow> (Inl err, s)
      | Inr s1 \<Rightarrow> performFlush offset (min sz (overlay_size s1)) s1)"

subsection \<open>The LRU cache and eviction\<close>

text \<open>
  A JavaScript value as the dispose hook receives it: a boolean or a number.
\<close>

datatype jsval = JBool bool | JNum nat

text \<open>
  \<^verbatim>\<open>_onEvict\<close>, \<^verbatim>\<open>_evictPage\<close> and \<^verbatim>\<open>this._lru.delete\<close> call each other. The cache is an
  \<^verbatim>\<open>LRUCache\<close> of \<^verbatim>\<open>lru-cache\<close> version 11 (\<^verbatim>\<open>package.json\<close>), which calls its hook as
  \<^verbatim>\<open>dispose(value, key, reason)\<close> when it evicts or deletes an entry. The hook is
  \<^verbatim>\<open>_onEvict(pageIndex, value)\<close>, so its parameter \<^verbatim>\<open>pageIndex\<close> receives the stored value
  \<^verbatim>\<open>true\<close>, and \<^verbatim>\<open>this._pages.get(true)\<close> is \<^verbatim>\<open>undefined\<close>: the keys of \<^verbatim>\<open>_pages\<close> are numbers.
  The flush of \<^verbatim>\<open>_onEvict\<close> and the eviction in its callback are run one after the other.
\<close>

function onEvict :: "jsval \<Rightarrow> jsval \<Rightarrow> lstore \<Rightarrow> lstore"
  and evictPage :: "nat \<Rightarrow> lstore \<Rightarrow> lstore"
  and lru_delete :: "nat \<Rightarrow> lstore \<Rightarrow> lstore"
where
  "onEvict (JBool b) v s = s"
| "onEvict (JNum pageIndex) v s =
     (case map_of (pages s) pageIndex of
        None \<Rightarrow> s
      | Some pg \<Rightarrow>
          if pageIndex \<in> pinnedPages s then s
          else if modified pg \<and> autoFlushOnEvict s then
            evictPage pageIndex (snd (flush (pageIndex * pageSize s) (pageSize s) s))
          else evictPage pageIndex s)"
| "evictPage pageIndex s =
     (if pageIndex \<in> pinnedPages s then s
      else
        let s1 = s\<lparr>pages := AList.delete pageIndex (pages s)\<rparr>;
            s2 = lru_delete pageIndex s1
        in s2\<lparr>modifiedPages := modifiedPages s2 - {pageIndex}\<rparr>)"
| "lru_delete k s =
     (if k \<in> set (lru s) then
        (let s1 = onEvict (JBool True) (JNum k) s
         in s1\<lparr>lru := removeAll k (lru s1)\<rparr>)
      else s)"
  by pat_completeness auto
termination
  by (relation "measure (\<lambda>x. case x of
          Inl (a, v, s) \<Rightarrow> (case a of JBool b \<Rightarrow> 0 | JNum n \<Rightarrow> 3)
        | Inr (Inl (p, s)) \<Rightarrow> 2
        | Inr (Inr (k, s)) \<Rightarrow> 1)") auto

text \<open>
  \<^verbatim>\<open>this._lru.set(k, true)\<close>: a key that is present moves to the front; a new key is added
  after the least recently used entry has been evicted (with its dispose call) when the cache
  holds \<^verbatim>\<open>max\<close> entries.
\<close>

definition lru_set :: "nat \<Rightarrow> lstore \<Rightarrow> lstore" where
  "lru_set k s =
     (if k \<in> set (lru s) then s\<lparr>lru := k # removeAll k (lru s)\<rparr>
      else if lru s \<noteq> [] \<and> length (lru s) = maxPages s then
        (let victim = last (lru s);
             s1 = onEvict (JBool True) (JNum victim) s
         in s1\<lparr>lru := k # removeAll victim (lru s1)\<rparr>)
      else s\<lparr>lru := k # lru s\<rparr>)"

text \<open>\<^verbatim>\<open>this._lru.get(k)\<close>, called for its effect on the order.\<close>

definition lru_get :: "nat \<Rightarrow> lstore \<Rightarrow> lstore" where
  "lru_get k s = (if k \<in> set (lru s) then s\<lparr>lru := k # removeAll k (lru s)\<rparr> else s)"

definition touchPage :: "nat \<Rightarrow> lstore \<Rightarrow> lstore" where
  "touchPage pageIndex s = lru_get pageIndex s"

subsection \<open>Pages\<close>

text \<open>\<^verbatim>\<open>this._pages.set(pageIndex, page); this._lru.set(pageIndex, true)\<close>\<close>

definition insertPage :: "nat \<Rightarrow> page \<Rightarrow> lstore \<Rightarrow> lstore" where
  "insertPage pageIndex pg s = lru_set pageIndex (s\<lparr>pages := AList.update pageIndex pg (pages s)\<rparr>)"

definition loadPage :: "nat \<Rightarrow> lstore \<Rightarrow> (error + page) \<times> lstore" where
  "loadPage pageIndex s =
     (let pageOffset = pageIndex * pageSize s;
          pg = \<lparr>data = alloc (pageSize s), modified = False\<rparr>
      in if fileExists s \<and> supports s ''read'' then
           (let bytesToRead = min (pageSize s) (overlay_size s - pageOffset)
            in if bytesToRead > 0 then
                 (case b_read (underlying s) pageOffset bytesToRead of
                    Inl err \<Rightarrow> (Inl err, s)
                  | Inr buf \<Rightarrow>
                      let pg1 = pg\<lparr>data := buffer_set (data pg) (subarray buf 0 bytesToRead) 0\<rparr>
                      in (Inr pg1, insertPage pageIndex pg1 s))
               else (Inr pg, insertPage pageIndex pg s))
         else (Inr pg, insertPage pageIndex pg s))"

definition getPage :: "nat \<Rightarrow> lstore \<Rightarrow> (error + page) \<times> lstore" where
  "getPage pageIndex s =
     (case map_of (pages s) pageIndex of
        Some pg \<Rightarrow> (Inr pg, s)
      | None \<Rightarrow> loadPage pageIndex s)"

definition loadOrCreatePage :: "nat \<Rightarrow> lstore \<Rightarrow> (error + page) \<times> lstore" where
  "loadOrCreatePage pageIndex s = loadPage pageIndex s"

definition getOrCreatePage :: "nat \<Rightarrow> lstore \<Rightarrow> (error + page) \<times> lstore" where
  "getOrCreatePage pageIndex s =
     (case map_of (pages s) pageIndex of
        Some pg \<Rightarrow> (Inr pg, s)
      | None \<Rightarrow> loadOrCreatePage pageIndex s)"

subsection \<open>Read\<close>

text \<open>
  The page loops advance by \<^verbatim>\<open>Math.min(this.pageSize - pageOffset, ...)\<close> bytes, which is
  positive because the constructor never leaves \<^verbatim>\<open>pageSize\<close> at \<open>0\<close>. With a \<open>pageSize\<close> of
  \<open>0\<close> a loop of the source would not advance; the model returns the error \<open>stuck\<close> there, a
  result that no call of the source produces.
\<close>

definition stuck :: error where
  "stuck = Error ''the page loop does not advance''"

lemma page_step_less:
  "0 < ps \<Longrightarrow> \<not> n \<le> k \<Longrightarrow> n - (k + min (ps - offset mod ps) (n - k)) < n - (k::nat)"
proof -
  assume "0 < ps" and "\<not> n \<le> k"
  moreover from \<open>0 < ps\<close> have "offset mod ps < ps" by simp
  ultimately show ?thesis by arith
qed

lemma page_step_less_del:
  "0 < ps \<Longrightarrow> \<not> e - r \<le> k \<Longrightarrow> \<not> e \<le> offset \<Longrightarrow>
   e - (r + (k + min (ps - offset mod ps) (e - offset))) < e - (r + (k::nat))"
proof -
  assume "0 < ps" and "\<not> e - r \<le> k" and "\<not> e \<le> offset"
  moreover from \<open>0 < ps\<close> have "offset mod ps < ps" by simp
  ultimately show ?thesis by arith
qed

function readNext ::
  "nat \<Rightarrow> buffer \<Rightarrow> nat \<Rightarrow> nat \<Rightarrow> lstore \<Rightarrow> (error + buffer) \<times> lstore" where
  "readNext req_size buffer bytesRead offset s =
     (if bytesRead \<ge> req_size then (Inr buffer, s)
      else if pageSize s = 0 then (Inl stuck, s)
      else
        let pageIndex = offset div pageSize s;
            pageOffset = offset mod pageSize s;
            bytesToRead = min (pageSize s - pageOffset) (req_size - bytesRead)
        in case getPage pageIndex s of
             (Inl err, s1) \<Rightarrow>
               if msg_includes (message err) ''Read exceeds storage size'' then
                 readNext req_size buffer (bytesRead + bytesToRead) (offset + bytesToRead) s1
               else (Inl err, s1)
           | (Inr pg, s1) \<Rightarrow>
               let buffer1 =
                     buffer_set buffer
                       (subarray (data pg) pageOffset (pageOffset + bytesToRead)) bytesRead;
                   s2 = touchPage pageIndex s1
               in readNext req_size buffer1 (bytesRead + bytesToRead) (offset + bytesToRead) s2)"
  by pat_completeness auto
termination
  by (relation "measure (\<lambda>(req_size, buffer, bytesRead, offset, s). req_size - bytesRead)")
    (auto simp: page_step_less)

declare readNext.simps [simp del]

definition read :: "nat \<Rightarrow> nat \<Rightarrow> lstore \<Rightarrow> (error + buffer) \<times> lstore" where
  "read offset sz s =
     (case ensureOpen s of
        Inl err \<Rightarrow> (Inl err, s)
      | Inr s1 \<Rightarrow>
          if \<not> fileExists s1 then (Inl (Error ''File does not exist''), s1)
          else if (case strictSizeLimit s1 of None \<Rightarrow> False | Some l \<Rightarrow> offset + sz > l) then
            (Inl (Error ''Read exceeds strict size enforcement''), s1)
          else readNext sz (alloc sz) 0 offset s1)"

subsection \<open>Write\<close>

text \<open>
  The callback that \<^verbatim>\<open>_write\<close> passes to \<^verbatim>\<open>_getOrCreatePage\<close>, up to the counters: grow the
  page's buffer when it is too short, copy \<open>src\<close> (\<^verbatim>\<open>req.data.subarray(...)\<close>) in, mark the page
  modified and touch it unless it is pinned. The page object is the one in \<^verbatim>\<open>_pages\<close>, so the
  assignments to it are an update of the map.
\<close>

definition writePage :: "nat \<Rightarrow> nat \<Rightarrow> nat \<Rightarrow> buffer \<Rightarrow> page \<Rightarrow> lstore \<Rightarrow> lstore" where
  "writePage pageIndex pageOffset bytesToWrite src pg s =
     (let pg1 = (if length (data pg) < pageOffset + bytesToWrite then
                   pg\<lparr>data := buffer_copy (data pg) (alloc (pageOffset + bytesToWrite))\<rparr>
                 else pg);
          pg2 = pg1\<lparr>data := buffer_set (data pg1) src pageOffset, modified := True\<rparr>;
          s1 = s\<lparr>pages := AList.update pageIndex pg2 (pages s),
                 modifiedPages := insert pageIndex (modifiedPages s)\<rparr>
      in if pageIndex \<notin> pinnedPages s1 then touchPage pageIndex s1 else s1)"

function writeNext ::
  "nat \<Rightarrow> buffer \<Rightarrow> nat \<Rightarrow> nat \<Rightarrow> lstore \<Rightarrow> (error + unit) \<times> lstore" where
  "writeNext req_offset req_data bytesWritten offset s =
     (if bytesWritten \<ge> length req_data then
        (Inr (), s\<lparr>overlay_size := max (overlay_size s) (req_offset + length req_data)\<rparr>)
      else if pageSize s = 0 then (Inl stuck, s)
      else
        let pageIndex = offset div pageSize s;
            pageOffset = offset mod pageSize s;
            bytesToWrite = min (pageSize s - pageOffset) (length req_data - bytesWritten)
        in if bitmask s \<noteq> None \<and> \<not> isBitSet s offset bytesToWrite then
             writeNext req_offset req_data (bytesWritten + bytesToWrite) (offset + bytesToWrite) s
           else
             case getOrCreatePage pageIndex s of
               (Inl err, s1) \<Rightarrow> (Inl err, s1)
             | (Inr pg, s1) \<Rightarrow>
                 writeNext req_offset req_data (bytesWritten + bytesToWrite)
                   (offset + bytesToWrite)
                   (writePage pageIndex pageOffset bytesToWrite
                      (subarray req_data bytesWritten (bytesWritten + bytesToWrite)) pg s1))"
  by pat_completeness auto
termination
  by (relation "measure (\<lambda>(req_offset, req_data, bytesWritten, offset, s).
          length req_data - bytesWritten)") (auto simp: page_step_less)

declare writeNext.simps [simp del]

definition store_write :: "nat \<Rightarrow> buffer \<Rightarrow> lstore \<Rightarrow> (error + unit) \<times> lstore" where
  "store_write offset req_data s =
     (case ensureOpen s of
        Inl err \<Rightarrow> (Inl err, s)
      | Inr s1 \<Rightarrow>
          if (case strictSizeLimit s1 of
                None \<Rightarrow> False
              | Some l \<Rightarrow> offset + length req_data > l) then
            (Inl (Error ''Write exceeds strict size enforcement''), s1)
          else writeNext offset req_data 0 offset s1)"

subsection \<open>Delete\<close>

text \<open>
  \<^verbatim>\<open>deleteNext\<close>. The source advances by \<^verbatim>\<open>Math.min(this.pageSize - pageOffset, end - offset)\<close>;
  \<open>offset\<close> is \<open>req_offset + bytesDeleted\<close> in every call of \<^verbatim>\<open>_del\<close>, which makes it positive.
\<close>

function deleteNext ::
  "nat \<Rightarrow> nat \<Rightarrow> nat \<Rightarrow> nat \<Rightarrow> lstore \<Rightarrow> (error + unit) \<times> lstore" where
  "deleteNext req_offset end bytesDeleted offset s =
     (if bytesDeleted \<ge> end - req_offset then
        (Inr (), if end = overlay_size s then s\<lparr>overlay_size := req_offset\<rparr> else s)
      else if pageSize s = 0 \<or> end \<le> offset then (Inl stuck, s)
      else
        let pageIndex = offset div pageSize s;
            pageOffset = offset mod pageSize s;
            bytesToDelete = min (pageSize s - pageOffset) (end - offset)
        in case getPage pageIndex s of
             (Inr pg, s1) \<Rightarrow>
               let pg1 = pg\<lparr>data := buffer_fill (data pg) 0 pageOffset (pageOffset + bytesToDelete),
                            modified := True\<rparr>;
                   s2 = s1\<lparr>pages := AList.update pageIndex pg1 (pages s1),
                          modifiedPages := insert pageIndex (modifiedPages s1)\<rparr>
               in deleteNext req_offset end (bytesDeleted + bytesToDelete)
                    (offset + bytesToDelete) s2
           | (Inl err, s1) \<Rightarrow>
               deleteNext req_offset end (bytesDeleted + bytesToDelete)
                 (offset + bytesToDelete) s1)"
  by pat_completeness auto
termination
  by (relation "measure (\<lambda>(req_offset, end, bytesDeleted, offset, s).
          (end - req_offset) - bytesDeleted)") (auto simp: page_step_less_del)

declare deleteNext.simps [simp del]

text \<open>\<^verbatim>\<open>_del\<close>; the size of the request is a number or \<^verbatim>\<open>Infinity\<close>.\<close>

definition del :: "nat \<Rightarrow> enat \<Rightarrow> lstore \<Rightarrow> (error + unit) \<times> lstore" where
  "del offset sz s =
     (case ensureOpen s of
        Inl err \<Rightarrow> (Inl err, s)
      | Inr s1 \<Rightarrow>
          let end = (if sz = \<infinity> \<or> enat offset + sz > enat (overlay_size s1)
                     then overlay_size s1
                     else offset + the_enat sz)
          in deleteNext offset end 0 offset s1)"

subsection \<open>Truncate\<close>

text \<open>
  The four deletions that \<^verbatim>\<open>_truncate\<close> does for a page it removes (in its loop and for the
  boundary page).
\<close>

definition removePage :: "nat \<Rightarrow> lstore \<Rightarrow> lstore" where
  "removePage index s =
     (let s1 = s\<lparr>pages := AList.delete index (pages s)\<rparr>;
          s2 = lru_delete index s1
      in s2\<lparr>modifiedPages := modifiedPages s2 - {index},
            pinnedPages := pinnedPages s2 - {index}\<rparr>)"

definition truncate :: "nat \<Rightarrow> lstore \<Rightarrow> (error + unit) \<times> lstore" where
  "truncate newSize s =
     (case ensureOpen s of
        Inl err \<Rightarrow> (Inl err, s)
      | Inr s0 \<Rightarrow>
          if newSize > overlay_size s0 then
            (let bytesToGrow = newSize - overlay_size s0;
                 growBuffer = alloc bytesToGrow
             in case store_write (overlay_size s0) growBuffer s0 of
                  (Inl err, s1) \<Rightarrow> (Inl err, s1)
                | (Inr u, s1) \<Rightarrow> (Inr (), s1\<lparr>overlay_size := newSize\<rparr>))
          else
            (let s1 = s0\<lparr>overlay_size := newSize\<rparr>;
                 pageIndex = newSize div pageSize s1;
                 pagesToRemove = filter (\<lambda>index. index > pageIndex) (map fst (pages s1));
                 s2 = fold removePage pagesToRemove s1;
                 s3 = (case map_of (pages s2) pageIndex of
                         None \<Rightarrow> s2
                       | Some lastPage \<Rightarrow>
                           let newPageSize = newSize mod pageSize s2
                           in if newPageSize = 0 then removePage pageIndex s2
                              else s2\<lparr>pages :=
                                        AList.update pageIndex
                                          (lastPage\<lparr>data := subarray (data lastPage) 0 newPageSize,
                                                    modified := True\<rparr>)
                                          (pages s2),
                                      modifiedPages := insert pageIndex (modifiedPages s2)\<rparr>)
             in if supports s3 ''truncate'' then
                  (case b_truncate (underlying s3) newSize of
                     Inl err \<Rightarrow> (Inl err, s3)
                   | Inr u \<Rightarrow> (Inr (), s3\<lparr>underlying := u\<rparr>))
                else (Inr (), s3)))"

subsection \<open>Explicit eviction and pinning\<close>

function evictNext ::
  "int \<Rightarrow> nat list \<Rightarrow> bool \<Rightarrow> nat \<Rightarrow> lstore \<Rightarrow> (error + unit) \<times> lstore" where
  "evictNext pagesToEvict pgs flushBeforeEvict evictIndex s =
     (if int evictIndex \<ge> pagesToEvict \<or> evictIndex \<ge> length pgs then (Inr (), s)
      else
        let pageIndex = pgs ! evictIndex
        in if flushBeforeEvict then
             evictNext pagesToEvict pgs flushBeforeEvict (evictIndex + 1)
               (evictPage pageIndex (snd (flush (pageIndex * pageSize s) (pageSize s) s)))
           else
             evictNext pagesToEvict pgs flushBeforeEvict (evictIndex + 1)
               (evictPage pageIndex s))"
  by pat_completeness auto
termination
  by (relation "measure (\<lambda>(pagesToEvict, pgs, flushBeforeEvict, evictIndex, s).
          length pgs - evictIndex)") auto

declare evictNext.simps [simp del]

text \<open>\<^verbatim>\<open>evict\<close>; \<open>percent\<close> is a fraction, \<^verbatim>\<open>Math.ceil\<close> is the ceiling.\<close>

definition evict :: "rat \<Rightarrow> bool \<Rightarrow> lstore \<Rightarrow> (error + unit) \<times> lstore" where
  "evict percent flushBeforeEvict s =
     (let totalPages = length (lru s);
          pagesToEvict = \<lceil>of_nat totalPages * percent\<rceil>;
          pgs = rev (filter (\<lambda>index. index \<notin> pinnedPages s) (lru s))
      in evictNext pagesToEvict pgs flushBeforeEvict 0 s)"

text \<open>
  The page indices of the loop \<^verbatim>\<open>for (pageIndex = startPage; pageIndex <= endPage; ...)\<close> of
  \<^verbatim>\<open>pin\<close> and \<^verbatim>\<open>unpin\<close>; \<^verbatim>\<open>endPage\<close> is \<open>-1\<close> when \<^verbatim>\<open>offset + size\<close> is \<open>0\<close>.
\<close>

definition pinRange :: "nat \<Rightarrow> nat \<Rightarrow> nat \<Rightarrow> nat list" where
  "pinRange ps offset sz =
     (if offset + sz = 0 then [] else [offset div ps ..< Suc ((offset + sz - 1) div ps)])"

definition pin :: "nat \<Rightarrow> nat \<Rightarrow> 'u store \<Rightarrow> 'u store" where
  "pin offset sz s = s\<lparr>pinnedPages := fold insert (pinRange (pageSize s) offset sz) (pinnedPages s)\<rparr>"

definition unpin :: "nat \<Rightarrow> nat \<Rightarrow> 'u store \<Rightarrow> 'u store" where
  "unpin offset sz s =
     s\<lparr>pinnedPages := fold (\<lambda>pageIndex S. S - {pageIndex}) (pinRange (pageSize s) offset sz)
                        (pinnedPages s)\<rparr>"

section \<open>Auxiliary definitions\<close>

text \<open>
  The key list of the cache after \<^verbatim>\<open>set\<close> and after \<^verbatim>\<open>get\<close>, as functions of the list alone.
\<close>

definition lru_keys_set :: "nat \<Rightarrow> nat \<Rightarrow> nat list \<Rightarrow> nat list" where
  "lru_keys_set k m l =
     (if k \<in> set l then k # removeAll k l
      else if l \<noteq> [] \<and> length l = m then k # removeAll (last l) l
      else k # l)"

definition lru_keys_get :: "nat \<Rightarrow> nat list \<Rightarrow> nat list" where
  "lru_keys_get k l = (if k \<in> set l then k # removeAll k l else l)"

text \<open>
  The page that \<^verbatim>\<open>_loadPage\<close> builds, or the error of the underlying read: \<open>loadPage\<close>
  without its two insertions.
\<close>

definition fetchPage :: "nat \<Rightarrow> lstore \<Rightarrow> error + page" where
  "fetchPage pageIndex s =
     (let pageOffset = pageIndex * pageSize s;
          pg = \<lparr>data = alloc (pageSize s), modified = False\<rparr>
      in if fileExists s \<and> supports s ''read'' then
           (let bytesToRead = min (pageSize s) (overlay_size s - pageOffset)
            in if bytesToRead > 0 then
                 (case b_read (underlying s) pageOffset bytesToRead of
                    Inl err \<Rightarrow> Inl err
                  | Inr buf \<Rightarrow>
                      Inr (pg\<lparr>data := buffer_set (data pg) (subarray buf 0 bytesToRead) 0\<rparr>))
               else Inr pg)
         else Inr pg)"

text \<open>A byte of a buffer, zero past its end (a page is zero beyond its buffer).\<close>

definition byte_at :: "buffer \<Rightarrow> nat \<Rightarrow> byte" where
  "byte_at b j = (if j < length b then b ! j else 0)"

text \<open>What \<open>writePage\<close> does to the page object.\<close>

definition page_write :: "nat \<Rightarrow> nat \<Rightarrow> buffer \<Rightarrow> page \<Rightarrow> page" where
  "page_write pageOffset bytesToWrite src pg =
     (let pg1 = (if length (data pg) < pageOffset + bytesToWrite then
                   pg\<lparr>data := buffer_copy (data pg) (alloc (pageOffset + bytesToWrite))\<rparr>
                 else pg)
      in pg1\<lparr>data := buffer_set (data pg1) src pageOffset, modified := True\<rparr>)"

text \<open>
  The per-page subranges of a request that starts at \<open>offset\<close> and ends before \<open>e\<close>: the part
  of page \<open>q\<close> that the request covers runs from \<open>chunk_start\<close> to \<open>chunk_end\<close>, page \<open>q\<close> is
  in range when that part is not empty, and the part passes the bitmask gate when there is no
  bitmask or \<^verbatim>\<open>_isBitSet\<close> holds for it.
\<close>

definition chunk_start :: "nat \<Rightarrow> nat \<Rightarrow> nat \<Rightarrow> nat" where
  "chunk_start offset ps q = max offset (q * ps)"

definition chunk_end :: "nat \<Rightarrow> nat \<Rightarrow> nat \<Rightarrow> nat" where
  "chunk_end e ps q = min e (q * ps + ps)"

definition page_in_range :: "nat \<Rightarrow> nat \<Rightarrow> nat \<Rightarrow> nat \<Rightarrow> bool" where
  "page_in_range offset e ps q = (chunk_start offset ps q < chunk_end e ps q)"

definition chunk_passes :: "lstore \<Rightarrow> nat \<Rightarrow> nat \<Rightarrow> nat \<Rightarrow> bool" where
  "chunk_passes s offset e q =
     (bitmask s = None \<or>
      isBitSet s (chunk_start offset (pageSize s) q)
        (chunk_end e (pageSize s) q - chunk_start offset (pageSize s) q))"

text \<open>
  Page \<open>q\<close> after the rest of a write of \<open>d\<close> at \<open>ro\<close> that has reached \<open>offset\<close> in the store
  \<open>s\<close> and ends in \<open>s'\<close>: when the page is in range and passes the gate, it is the page that
  \<open>getPage\<close> yields in \<open>s\<close> with its part of \<open>d\<close> written in, and it is dirty; otherwise it is as
  it was.
\<close>

definition write_post :: "lstore \<Rightarrow> nat \<Rightarrow> buffer \<Rightarrow> nat \<Rightarrow> lstore \<Rightarrow> nat \<Rightarrow> bool" where
  "write_post s ro d offset s' q =
     (let ps = pageSize s;
          e = ro + length d;
          cs = chunk_start offset ps q;
          ce = chunk_end e ps q
      in if page_in_range offset e ps q \<and> chunk_passes s offset e q then
           (\<exists>pg0. fst (getPage q s) = Inr pg0 \<and>
                  map_of (pages s') q =
                    Some (page_write (cs mod ps) (ce - cs) (subarray d (cs - ro) (ce - ro)) pg0)) \<and>
           q \<in> modifiedPages s'
         else map_of (pages s') q = map_of (pages s) q \<and>
              (q \<in> modifiedPages s' \<longleftrightarrow> q \<in> modifiedPages s))"

text \<open>The value that a read leaves at index \<open>k\<close> of its buffer when the page is resident.\<close>

definition read_byte :: "lstore \<Rightarrow> nat \<Rightarrow> byte \<Rightarrow> byte" where
  "read_byte s x dflt =
     (case map_of (pages s) (x div pageSize s) of
        Some pg \<Rightarrow> if x mod pageSize s < length (data pg) then data pg ! (x mod pageSize s)
                   else dflt
      | None \<Rightarrow> dflt)"

text \<open>The byte that the overlay holds for offset \<open>x\<close>, when the page of \<open>x\<close> is resident.\<close>

definition overlay_byte :: "lstore \<Rightarrow> nat \<Rightarrow> byte option" where
  "overlay_byte s x =
     map_option (\<lambda>pg. byte_at (data pg) (x mod pageSize s))
       (map_of (pages s) (x div pageSize s))"

text \<open>
  Example objects: an empty memory backend with the methods of a \<^verbatim>\<open>random-access-storage\<close>
  instance, options with pages of four bytes, and the store built from them and opened.
\<close>

definition memory :: backend where
  "memory = \<lparr>contents = [],
              methods = [''open'', ''read'', ''write'', ''del'', ''truncate'', ''stat'',
                         ''close'', ''unlink'']\<rparr>"

definition small_opts :: "nat \<Rightarrow> nat option \<Rightarrow> opts" where
  "small_opts m strict =
     \<lparr>opt_pageSize = Some 4, opt_maxPages = Some m, opt_createIfMissing = None,
      opt_strictSizeEnforcement = strict, opt_flushOnClose = None,
      opt_autoFlushOnEvict = None\<rparr>"

definition opened_store :: "nat \<Rightarrow> nat option \<Rightarrow> lstore" where
  "opened_store m strict =
     (case store_open (construct memory (small_opts m strict)) of
        Inr s \<Rightarrow> s
      | Inl err \<Rightarrow> construct memory (small_opts m strict))"

text \<open>
  A store whose four bytes have been flushed to the backend and whose page has then been
  evicted: the bytes are in the backend only.
\<close>

definition flushed_store :: lstore where
  "flushed_store =
     snd (evict 1 False
            (snd (flush 0 4 (snd (store_write 0 [9, 8, 7, 6] (opened_store 10 None))))))"

text \<open>
  An opened store with the bitmask \<open>[15]\<close>: the bits of offsets 0 to 3 are set, every other
  bit is not.
\<close>

definition masked_store :: lstore where
  "masked_store = setBitmask [15] (opened_store 10 None)"

text \<open>
  A store whose backend holds eight flushed bytes, whose overlay has then been cut to four
  bytes by a delete, and whose pages have been evicted without a flush; its bitmask \<open>[0]\<close>
  has no bit set.
\<close>

definition stale_store :: lstore where
  "stale_store =
     setBitmask [0]
       (snd (evict 1 False
          (snd (del 4 \<infinity>
             (snd (flush 0 8
                (snd (store_write 0 [9, 8, 7, 6, 5, 4, 3, 2] (opened_store 10 None)))))))))"

text \<open>
  The contents of the memory backend after a write and after a truncate, and after a list of
  writes; \<open>writes_end\<close> is the largest end of a write of the list.
\<close>

definition mem_write :: "nat \<Rightarrow> buffer \<Rightarrow> buffer \<Rightarrow> buffer" where
  "mem_write offset buf c =
     (let c1 = c @ replicate (offset + length buf - length c) 0
      in take offset c1 @ buf @ drop (offset + length buf) c1)"

definition mem_resize :: "nat \<Rightarrow> buffer \<Rightarrow> buffer" where
  "mem_resize n c = take n c @ replicate (n - length c) 0"

text \<open>The value that the last write of a list of writes puts at index \<open>i\<close>, if one covers it.\<close>

fun last_cover :: "(nat \<times> buffer) list \<Rightarrow> nat \<Rightarrow> byte option" where
  "last_cover [] i = None"
| "last_cover ((offset, buf) # ws) i =
     (case last_cover ws i of
        Some v \<Rightarrow> Some v
      | None \<Rightarrow> if offset \<le> i \<and> i < offset + length buf then Some (buf ! (i - offset)) else None)"

definition mem_writes :: "(nat \<times> buffer) list \<Rightarrow> buffer \<Rightarrow> buffer" where
  "mem_writes ws c = fold (\<lambda>(offset, buf). mem_write offset buf) ws c"

definition writes_end :: "(nat \<times> buffer) list \<Rightarrow> nat" where
  "writes_end ws = fold (\<lambda>(offset, buf) m. max m (offset + length buf)) ws 0"

text \<open>
  Flush as functions of the store: the buffers of the resident pages, the offset and the
  buffer that \<^verbatim>\<open>flushNext\<close> writes for page \<open>q\<close>, the page map with page \<open>q\<close> marked clean, whether a
  page is resident and dirty, the page indices that \<open>flush offset sz\<close> visits (its size is
  clipped to the size of the overlay), the store after the step of \<^verbatim>\<open>flushNext\<close> for one page,
  and the store after its final truncate.
\<close>

definition page_data :: "lstore \<Rightarrow> nat \<Rightarrow> buffer option" where
  "page_data s q = map_option data (map_of (pages s) q)"

definition flush_chunk ::
  "nat \<Rightarrow> (nat \<Rightarrow> buffer option) \<Rightarrow> nat \<Rightarrow> nat \<Rightarrow> nat \<Rightarrow> nat \<Rightarrow> nat \<Rightarrow> nat \<times> buffer" where
  "flush_chunk ps dv offset end sp ep q =
     (let so = (if q = sp then offset mod ps else 0);
          eo = (if q = ep then ((end - 1) mod ps) + 1 else ps)
      in (q * ps + so,
          case dv q of Some dat \<Rightarrow> subarray dat so eo | None \<Rightarrow> alloc (eo - so)))"

definition clean_page :: "nat \<Rightarrow> (nat \<times> page) list \<Rightarrow> (nat \<times> page) list" where
  "clean_page q al =
     (case map_of al q of
        Some pg \<Rightarrow> if modified pg then AList.update q (pg\<lparr>modified := False\<rparr>) al else al
      | None \<Rightarrow> al)"

definition is_dirty :: "(nat \<times> page) list \<Rightarrow> nat \<Rightarrow> bool" where
  "is_dirty al q = (case map_of al q of Some pg \<Rightarrow> modified pg | None \<Rightarrow> False)"

definition flushed_pages :: "lstore \<Rightarrow> nat \<Rightarrow> nat \<Rightarrow> nat list" where
  "flushed_pages s offset sz =
     (let end = offset + min sz (overlay_size s)
      in if end = 0 then [] else [offset div pageSize s ..< Suc ((end - 1) div pageSize s)])"

definition flush_page :: "nat \<Rightarrow> nat \<Rightarrow> nat \<Rightarrow> nat \<Rightarrow> nat \<Rightarrow> lstore \<Rightarrow> lstore" where
  "flush_page offset end sp ep q s =
     s\<lparr>underlying :=
         (underlying s)\<lparr>contents :=
            mem_write (fst (flush_chunk (pageSize s) (page_data s) offset end sp ep q))
              (snd (flush_chunk (pageSize s) (page_data s) offset end sp ep q))
              (contents (underlying s))\<rparr>,
       pages := clean_page q (pages s),
       modifiedPages := (if is_dirty (pages s) q then modifiedPages s - {q} else modifiedPages s)\<rparr>"

definition flush_finish :: "nat \<Rightarrow> lstore \<Rightarrow> lstore" where
  "flush_finish end s =
     (if overlay_size s < end \<and> supports s ''truncate'' then
        s\<lparr>underlying :=
            (underlying s)\<lparr>contents := mem_resize (overlay_size s) (contents (underlying s))\<rparr>\<rparr>
      else s)"

text \<open>
  A store of size 2 whose page 1 is resident and dirty: eight bytes are written and the bytes
  from offset 2 on are deleted.
\<close>

definition shrunk_store :: lstore where
  "shrunk_store =
     snd (del 2 \<infinity> (snd (store_write 0 [1, 2, 3, 4, 5, 6, 7, 8] (opened_store 10 None))))"

text \<open>
  Sequences of operations on a store; the result of an operation is dropped, the store it
  leaves is kept. \<open>lru_ok\<close> is the bound on the keys of the LRU cache.
\<close>

datatype operation =
    Read nat nat
  | Write nat buffer
  | Del nat enat
  | Truncate nat
  | Flush nat nat
  | Evict rat bool
  | Pin nat nat
  | Unpin nat nat



definition lru_ok :: "lstore \<Rightarrow> bool" where
  "lru_ok s = (0 < maxPages s \<and> length (lru s) \<le> maxPages s)"

section \<open>Basic facts\<close>

lemma ensureOpen_opened: "opened s \<Longrightarrow> ensureOpen s = Inr s"
  by (simp add: ensureOpen_def)

lemma lru_set_eq: "lru_set k s = s\<lparr>lru := lru_keys_set k (maxPages s) (lru s)\<rparr>"
  by (simp add: lru_set_def lru_keys_set_def)

lemma lru_get_eq: "lru_get k s = s\<lparr>lru := lru_keys_get k (lru s)\<rparr>"
  by (simp add: lru_get_def lru_keys_get_def)

lemma touchPage_eq: "touchPage k s = s\<lparr>lru := lru_keys_get k (lru s)\<rparr>"
  by (simp add: touchPage_def lru_get_eq)

lemma lru_delete_eq: "lru_delete k s = s\<lparr>lru := removeAll k (lru s)\<rparr>"
  by simp

lemma insertPage_eq:
  "insertPage p pg s =
     s\<lparr>pages := AList.update p pg (pages s), lru := lru_keys_set p (maxPages s) (lru s)\<rparr>"
  by (simp add: insertPage_def lru_set_eq)

lemma loadPage_fetch:
  "loadPage p s =
     (case fetchPage p s of
        Inl err \<Rightarrow> (Inl err, s)
      | Inr pg \<Rightarrow> (Inr pg, insertPage p pg s))"
  by (simp add: loadPage_def fetchPage_def Let_def split: sum.splits)

lemma opened_store_eq:
  "opened_store m strict =
     (construct memory (small_opts m strict))\<lparr>fileExists := True, opened := True\<rparr>"
  by (simp add: opened_store_def store_open_def construct_def memory_def supports_def
      b_open_def b_stat_def)

lemma opened_store_fields [simp]:
  "opened (opened_store m strict)"
  "fileExists (opened_store m strict)"
  "pageSize (opened_store m strict) = 4"
  "maxPages (opened_store m strict) = (if m = 0 then 100 else m)"
  "strictSizeLimit (opened_store m strict) = strict"
  "pages (opened_store m strict) = []"
  "lru (opened_store m strict) = []"
  "pinnedPages (opened_store m strict) = {}"
  "modifiedPages (opened_store m strict) = {}"
  "bitmask (opened_store m strict) = None"
  "overlay_size (opened_store m strict) = 0"
  "underlying (opened_store m strict) = memory"
  by (simp_all add: opened_store_eq construct_def small_opts_def or_default_def)

lemma getPage_frame:
  assumes "getPage p s = (r, s1)"
  shows "pageSize s1 = pageSize s" and "overlay_size s1 = overlay_size s"
    and "maxPages s1 = maxPages s" and "underlying s1 = underlying s"
    and "fileExists s1 = fileExists s" and "opened s1 = opened s"
    and "strictSizeLimit s1 = strictSizeLimit s" and "bitmask s1 = bitmask s"
    and "pinnedPages s1 = pinnedPages s" and "modifiedPages s1 = modifiedPages s"
    and "autoFlushOnEvict s1 = autoFlushOnEvict s"
  using assms
  by (auto simp: getPage_def loadPage_fetch insertPage_eq split: option.splits sum.splits)

text \<open>The definitions that evaluate the model on a concrete store.\<close>

lemmas eval_defs = store_write_def read_def ensureOpen_def getOrCreatePage_def
  loadOrCreatePage_def getPage_def loadPage_def insertPage_def lru_set_def writePage_def
  touchPage_def lru_get_def Let_def alloc_def buffer_copy_def buffer_set_def buffer_fill_def
  subarray_def supports_def b_read_def b_write_def b_truncate_def memory_def isBitSet_def
  bitSetAt_def setBitmask_def pin_def pinRange_def del_def truncate_def removePage_def

lemma pin_pinned:
  "pinnedPages (pin offset sz s) = pinnedPages s \<union> set (pinRange (pageSize s) offset sz)"
  by (simp add: pin_def union_set_fold [symmetric] Un_commute)

lemma fold_remove_set: "fold (\<lambda>x S. S - {x}) xs A = A - set xs"
  by (induction xs arbitrary: A) auto

lemma unpin_pinned:
  "pinnedPages (unpin offset sz s) = pinnedPages s - set (pinRange (pageSize s) offset sz)"
  by (simp add: unpin_def fold_remove_set)

lemma flushed_store_eq:
  "flushed_store =
     (opened_store 10 None)\<lparr>underlying := memory\<lparr>contents := [9, 8, 7, 6]\<rparr>, overlay_size := 4\<rparr>"
  by (simp add: flushed_store_def eval_defs writeNext.simps flush_def performFlush_def
      evict_def evictNext.simps)

lemma masked_store_fields [simp]:
  "opened masked_store" "fileExists masked_store" "pageSize masked_store = 4"
  "bitmask masked_store = Some [15]" "pages masked_store = []"
  "modifiedPages masked_store = {}" "overlay_size masked_store = 0"
  "strictSizeLimit masked_store = None" "underlying masked_store = memory"
  "lru masked_store = []" "maxPages masked_store = 10" "pinnedPages masked_store = {}"
  by (simp_all add: masked_store_def setBitmask_def)

lemma masked_write_ok:
  "fst (store_write 0 [1, 2, 3, 4, 5, 6] masked_store) = Inr ()"
  by (simp add: eval_defs writeNext.simps)

lemma stale_store_eq:
  "stale_store =
     (opened_store 10 None)\<lparr>underlying := memory\<lparr>contents := [9, 8, 7, 6, 5, 4, 3, 2]\<rparr>,
       overlay_size := 4, bitmask := Some [0]\<rparr>"
  by (simp add: stale_store_def eval_defs writeNext.simps deleteNext.simps flush_def
      performFlush_def evict_def evictNext.simps insert_Diff_if)

lemma removePage_eq:
  "removePage i s =
     s\<lparr>pages := AList.delete i (pages s), lru := removeAll i (lru s),
       modifiedPages := modifiedPages s - {i}, pinnedPages := pinnedPages s - {i}\<rparr>"
  by (simp add: removePage_def lru_delete_eq Let_def)

lemma fold_removePage_pinned:
  "pinnedPages (fold removePage xs s) = pinnedPages s - set xs"
  by (induction xs arbitrary: s) (auto simp: removePage_eq)

lemma fold_removePage_pages:
  "map_of (pages (fold removePage xs s)) k = (if k \<in> set xs then None else map_of (pages s) k)"
  by (induction xs arbitrary: s) (auto simp: removePage_eq delete_conv)

lemma fold_removePage_frame:
  "pageSize (fold removePage xs s) = pageSize s"
  "underlying (fold removePage xs s) = underlying s"
  "maxPages (fold removePage xs s) = maxPages s"
  by (induction xs arbitrary: s) (auto simp: removePage_eq)

section \<open>Facts about buffers and per-page subranges\<close>

lemma writePage_eq:
  "writePage pageIndex pageOffset n src pg s =
     s\<lparr>pages := AList.update pageIndex (page_write pageOffset n src pg) (pages s),
       modifiedPages := insert pageIndex (modifiedPages s),
       lru := (if pageIndex \<notin> pinnedPages s then lru_keys_get pageIndex (lru s) else lru s)\<rparr>"
  by (simp add: writePage_def page_write_def touchPage_eq Let_def)

lemma buffer_copy_alloc:
  "length b < m \<Longrightarrow> buffer_copy b (alloc m) = b @ replicate (m - length b) 0"
  by (simp add: buffer_copy_def buffer_set_def alloc_def)

lemma byte_at_pad [simp]: "byte_at (b @ replicate k 0) j = byte_at b j"
  by (auto simp: byte_at_def nth_append)

lemma buffer_set_length:
  "pos + length src \<le> length buf \<Longrightarrow> length (buffer_set buf src pos) = length buf"
  by (simp add: buffer_set_def)

lemma byte_at_buffer_set:
  "pos + length src \<le> length buf \<Longrightarrow>
   byte_at (buffer_set buf src pos) j =
     (if pos \<le> j \<and> j < pos + length src then src ! (j - pos) else byte_at buf j)"
  by (auto simp: byte_at_def buffer_set_def nth_append min_def)

lemma page_write_length:
  "length src = n \<Longrightarrow>
   length (data (page_write po n src pg)) = max (length (data pg)) (po + n)"
  by (auto simp: page_write_def Let_def buffer_copy_alloc buffer_set_length)

lemma page_write_byte:
  "length src = n \<Longrightarrow>
   byte_at (data (page_write po n src pg)) j =
     (if po \<le> j \<and> j < po + n then src ! (j - po) else byte_at (data pg) j)"
  by (auto simp: page_write_def Let_def buffer_copy_alloc byte_at_buffer_set)

lemma div_eq_iff_range:
  assumes "0 < (ps::nat)"
  shows "x div ps = q \<longleftrightarrow> q * ps \<le> x \<and> x < q * ps + ps"
proof
  assume "x div ps = q"
  then have "x = q * ps + x mod ps" by (metis div_mult_mod_eq)
  moreover have "x mod ps < ps" using assms by simp
  ultimately show "q * ps \<le> x \<and> x < q * ps + ps" by linarith
next
  assume "q * ps \<le> x \<and> x < q * ps + ps"
  then show "x div ps = q" using assms by (intro div_nat_eqI) (simp_all add: mult.commute)
qed

lemma page_in_range_iff:
  assumes "0 < ps"
  shows "page_in_range offset e ps q \<longleftrightarrow> (\<exists>x. offset \<le> x \<and> x < e \<and> x div ps = q)"
proof
  assume r: "page_in_range offset e ps q"
  let ?x = "max offset (q * ps)"
  from r have "?x < e" "?x < q * ps + ps" "q * ps \<le> ?x" "offset \<le> ?x"
    by (simp_all add: page_in_range_def chunk_start_def chunk_end_def)
  then show "\<exists>x. offset \<le> x \<and> x < e \<and> x div ps = q"
    using div_eq_iff_range[OF assms, of ?x q] by blast
next
  assume "\<exists>x. offset \<le> x \<and> x < e \<and> x div ps = q"
  then obtain x where x: "offset \<le> x" "x < e" "x div ps = q" by blast
  with div_eq_iff_range[OF assms, of x q] have "q * ps \<le> x" "x < q * ps + ps" by simp_all
  with x show "page_in_range offset e ps q"
    by (simp add: page_in_range_def chunk_start_def chunk_end_def)
qed

section \<open>The write loop\<close>

lemma getOrCreatePage_getPage: "getOrCreatePage p s = getPage p s"
  by (simp add: getOrCreatePage_def getPage_def loadOrCreatePage_def split: option.splits)

lemma writeNext_rule [case_names finished stuck skip failed step]:
  assumes finished: "\<And>ro d bw offset s. length d \<le> bw \<Longrightarrow>
            P ro d bw offset s
              (Inr (), s\<lparr>overlay_size := max (overlay_size s) (ro + length d)\<rparr>)"
    and stuck: "\<And>ro d bw offset s. \<not> length d \<le> bw \<Longrightarrow> pageSize s = 0 \<Longrightarrow>
            P ro d bw offset s (Inl stuck, s)"
    and skip: "\<And>ro d bw offset s n res. \<not> length d \<le> bw \<Longrightarrow> 0 < pageSize s \<Longrightarrow>
            n = min (pageSize s - offset mod pageSize s) (length d - bw) \<Longrightarrow>
            bitmask s \<noteq> None \<Longrightarrow> \<not> isBitSet s offset n \<Longrightarrow>
            P ro d (bw + n) (offset + n) s res \<Longrightarrow> P ro d bw offset s res"
    and failed: "\<And>ro d bw offset s n err s1. \<not> length d \<le> bw \<Longrightarrow> 0 < pageSize s \<Longrightarrow>
            n = min (pageSize s - offset mod pageSize s) (length d - bw) \<Longrightarrow>
            bitmask s = None \<or> isBitSet s offset n \<Longrightarrow>
            getPage (offset div pageSize s) s = (Inl err, s1) \<Longrightarrow>
            P ro d bw offset s (Inl err, s1)"
    and step: "\<And>ro d bw offset s n pg s1 res. \<not> length d \<le> bw \<Longrightarrow> 0 < pageSize s \<Longrightarrow>
            n = min (pageSize s - offset mod pageSize s) (length d - bw) \<Longrightarrow>
            bitmask s = None \<or> isBitSet s offset n \<Longrightarrow>
            getPage (offset div pageSize s) s = (Inr pg, s1) \<Longrightarrow>
            P ro d (bw + n) (offset + n)
              (writePage (offset div pageSize s) (offset mod pageSize s) n
                 (subarray d bw (bw + n)) pg s1) res \<Longrightarrow>
            P ro d bw offset s res"
  shows "P ro d bw offset s (writeNext ro d bw offset s)"
proof (induction ro d bw offset s rule: writeNext.induct)
  case (1 ro d bw offset s)
  let ?n = "min (pageSize s - offset mod pageSize s) (length d - bw)"
  let ?q = "offset div pageSize s"
  show ?case
  proof (cases "length d \<le> bw")
    case True
    then show ?thesis using finished[OF True, of ro offset s] by (subst writeNext.simps) simp
  next
    case nd: False
    show ?thesis
    proof (cases "pageSize s = 0")
      case True
      then show ?thesis using stuck[OF nd True, of ro offset] nd
        by (subst writeNext.simps) simp
    next
      case False
      then have ps: "0 < pageSize s" by simp
      show ?thesis
      proof (cases "bitmask s \<noteq> None \<and> \<not> isBitSet s offset ?n")
        case gated: True
        have eq: "writeNext ro d bw offset s = writeNext ro d (bw + ?n) (offset + ?n) s"
          using nd False gated by (subst writeNext.simps) (simp add: Let_def)
        from "1.IH"(1)[OF nd False refl refl refl gated]
        have "P ro d (bw + ?n) (offset + ?n) s (writeNext ro d (bw + ?n) (offset + ?n) s)" .
        from skip[OF nd ps refl _ _ this] gated show ?thesis by (simp add: eq)
      next
        case pass: False
        then have pass': "bitmask s = None \<or> isBitSet s offset ?n" by blast
        obtain r1 s1 where g: "getPage ?q s = (r1, s1)" by (cases "getPage ?q s")
        show ?thesis
        proof (cases r1)
          case (Inl err)
          have eq: "writeNext ro d bw offset s = (Inl err, s1)"
            using nd False pass g Inl
            by (subst writeNext.simps) (auto simp: Let_def getOrCreatePage_getPage)
          from failed[OF nd ps refl pass' g[unfolded Inl], of ro] show ?thesis by (simp add: eq)
        next
          case (Inr pg)
          let ?s2 = "writePage ?q (offset mod pageSize s) ?n (subarray d bw (bw + ?n)) pg s1"
          have eq: "writeNext ro d bw offset s = writeNext ro d (bw + ?n) (offset + ?n) ?s2"
            using nd False pass g Inr
            by (subst writeNext.simps) (auto simp: Let_def getOrCreatePage_getPage)
          have g': "(r1, s1) = getOrCreatePage ?q s"
            by (simp add: getOrCreatePage_getPage g)
          from "1.IH"(2)[OF nd False refl refl refl pass g' Inr]
          have "P ro d (bw + ?n) (offset + ?n) ?s2 (writeNext ro d (bw + ?n) (offset + ?n) ?s2)" .
          from step[OF nd ps refl pass' g[unfolded Inr] this] show ?thesis by (simp add: eq)
        qed
      qed
    qed
  qed
qed

lemma writeNext_frame:
  "writeNext ro d bw offset s = (r, s') \<Longrightarrow>
   pageSize s' = pageSize s \<and> underlying s' = underlying s \<and> fileExists s' = fileExists s \<and>
   opened s' = opened s \<and> bitmask s' = bitmask s \<and> pinnedPages s' = pinnedPages s \<and>
   strictSizeLimit s' = strictSizeLimit s \<and> maxPages s' = maxPages s \<and>
   overlay_size s' =
     (if r = Inr () then max (overlay_size s) (ro + length d) else overlay_size s)"
proof -
  let ?P = "\<lambda>ro d (bw::nat) (offset::nat) s res.
     pageSize (snd res) = pageSize s \<and> underlying (snd res) = underlying s \<and>
     fileExists (snd res) = fileExists s \<and>
     opened (snd res) = opened s \<and> bitmask (snd res) = bitmask s \<and>
     pinnedPages (snd res) = pinnedPages s \<and>
     strictSizeLimit (snd res) = strictSizeLimit s \<and> maxPages (snd res) = maxPages s \<and>
     overlay_size (snd res) =
       (if fst res = Inr () then max (overlay_size s) (ro + length d) else overlay_size s)"
  have "?P ro d bw offset s (writeNext ro d bw offset s)"
  proof (rule writeNext_rule[where P = ?P], goal_cases)
    case 1 then show ?case by simp
  next
    case 2 then show ?case by simp
  next
    case 3 then show ?case by simp
  next
    case (4 ro d bw offset s n err s1)
    from getPage_frame[OF 4(5)] show ?case by simp
  next
    case (5 ro d bw offset s n pg s1 res)
    from getPage_frame[OF 5(5)] 5(6) show ?case by (simp add: writePage_eq)
  qed
  then show "writeNext ro d bw offset s = (r, s') \<Longrightarrow> ?thesis" by simp
qed

lemma mult_step_le: "q < q0 \<Longrightarrow> q * ps + ps \<le> q0 * (ps::nat)"
  by (metis Suc_leI mult_Suc mult_le_mono1 add.commute)

lemma chunk_current:
  assumes "0 < ps" and "offset < e" and "n = min (ps - offset mod ps) (e - offset)"
  shows "chunk_start offset ps (offset div ps) = offset"
    and "chunk_end e ps (offset div ps) = offset + n"
    and "page_in_range offset e ps (offset div ps)"
    and "\<not> page_in_range (offset + n) e ps (offset div ps)"
proof -
  have o: "offset = offset div ps * ps + offset mod ps" by simp
  have m: "offset mod ps < ps" using assms(1) by simp
  show 1: "chunk_start offset ps (offset div ps) = offset"
    unfolding chunk_start_def using o by linarith
  show 2: "chunk_end e ps (offset div ps) = offset + n"
    unfolding chunk_end_def using o m assms by linarith
  show "page_in_range offset e ps (offset div ps)"
    unfolding page_in_range_def 1 2 using m assms by linarith
  show "\<not> page_in_range (offset + n) e ps (offset div ps)"
    unfolding page_in_range_def chunk_start_def 2[unfolded chunk_end_def] chunk_end_def
    using o m assms by linarith
qed

lemma in_range_shift_aux:
  fixes a b :: nat
  assumes "a \<le> offset" and "offset < a + ps" and "offset + n \<le> a + ps"
    and "offset + n \<le> e" and "0 < n" and "b + ps \<le> a \<or> a + ps \<le> b"
  shows "(max (offset + n) b < min e (b + ps)) = (max offset b < min e (b + ps)) \<and>
         (max offset b < min e (b + ps) \<longrightarrow> max (offset + n) b = max offset b)"
  using assms by (auto simp: max_def min_def)

lemma chunk_other:
  assumes "0 < ps" and "offset < e" and "n = min (ps - offset mod ps) (e - offset)"
    and "q \<noteq> offset div ps"
  shows "page_in_range (offset + n) e ps q = page_in_range offset e ps q"
    and "page_in_range offset e ps q \<Longrightarrow> chunk_start (offset + n) ps q = chunk_start offset ps q"
proof -
  have o: "offset = offset div ps * ps + offset mod ps" by simp
  have m: "offset mod ps < ps" using assms(1) by simp
  have lo: "offset div ps * ps \<le> offset" by simp
  have hi: "offset < offset div ps * ps + ps" using o m by linarith
  have n: "offset + n \<le> offset div ps * ps + ps" "offset + n \<le> e" "0 < n"
    using assms(2,3) o m by linarith+
  have "q < offset div ps \<or> offset div ps < q" using assms(4) by linarith
  then have "q * ps + ps \<le> offset div ps * ps \<or> offset div ps * ps + ps \<le> q * ps"
    using mult_step_le[of q "offset div ps" ps] mult_step_le[of "offset div ps" q ps] by blast
  from in_range_shift_aux[OF lo hi n this]
  show "page_in_range (offset + n) e ps q = page_in_range offset e ps q"
    and "page_in_range offset e ps q \<Longrightarrow> chunk_start (offset + n) ps q = chunk_start offset ps q"
    unfolding page_in_range_def chunk_start_def chunk_end_def by blast+
qed

lemma chunk_none: "e \<le> offset \<Longrightarrow> \<not> page_in_range offset e ps q"
  by (simp add: page_in_range_def chunk_start_def chunk_end_def)

lemma fst_getPage_cong:
  "map_of (pages s2) q = map_of (pages s) q \<Longrightarrow> pageSize s2 = pageSize s \<Longrightarrow>
   overlay_size s2 = overlay_size s \<Longrightarrow> fileExists s2 = fileExists s \<Longrightarrow>
   underlying s2 = underlying s \<Longrightarrow> fst (getPage q s2) = fst (getPage q s)"
  by (simp add: getPage_def loadPage_fetch fetchPage_def supports_def Let_def
      split: option.splits sum.splits)

lemma getPage_pages:
  assumes "getPage p s = (r, s1)"
  shows "q \<noteq> p \<Longrightarrow> map_of (pages s1) q = map_of (pages s) q"
    and "r = Inr pg \<Longrightarrow> map_of (pages s1) p = Some pg"
  using assms
  by (auto simp: getPage_def loadPage_fetch insertPage_eq update_conv'
      split: option.splits sum.splits)

lemma write_post_other:
  assumes "0 < pageSize s" and "offset < ro + length d"
    and "n = min (pageSize s - offset mod pageSize s) (ro + length d - offset)"
    and "q \<noteq> offset div pageSize s"
    and "pageSize s2 = pageSize s" and "bitmask s2 = bitmask s"
    and "fst (getPage q s2) = fst (getPage q s)"
    and "map_of (pages s2) q = map_of (pages s) q"
    and "(q \<in> modifiedPages s2) = (q \<in> modifiedPages s)"
    and "write_post s2 ro d (offset + n) s' q"
  shows "write_post s ro d offset s' q"
proof -
  note co = chunk_other[OF assms(1,2,3,4)]
  have ir: "page_in_range (offset + n) (ro + length d) (pageSize s) q
            = page_in_range offset (ro + length d) (pageSize s) q"
    by (rule co(1))
  show ?thesis
  proof (cases "page_in_range offset (ro + length d) (pageSize s) q")
    case True
    have cs: "chunk_start (offset + n) (pageSize s) q = chunk_start offset (pageSize s) q"
      by (rule co(2)[OF True])
    have cp: "chunk_passes s2 (offset + n) (ro + length d) q
              = chunk_passes s offset (ro + length d) q"
      by (simp add: chunk_passes_def isBitSet_def assms(5,6) cs)
    show ?thesis
      using assms(10)
      unfolding write_post_def Let_def assms(5) ir cs cp assms(7) assms(8) assms(9) .
  next
    case False
    show ?thesis
      using assms(10) False
      unfolding write_post_def Let_def assms(5) ir assms(8) assms(9) by simp
  qed
qed

lemma write_post_current_skip:
  assumes "0 < pageSize s" and "offset < ro + length d"
    and "n = min (pageSize s - offset mod pageSize s) (ro + length d - offset)"
    and "bitmask s \<noteq> None" and "\<not> isBitSet s offset n"
    and "write_post s ro d (offset + n) s' (offset div pageSize s)"
  shows "write_post s ro d offset s' (offset div pageSize s)"
proof -
  note cc = chunk_current[OF assms(1,2,3)]
  have "\<not> chunk_passes s offset (ro + length d) (offset div pageSize s)"
    using assms(4,5) cc by (simp add: chunk_passes_def)
  with assms(6) cc(4) show ?thesis
    by (simp add: write_post_def Let_def)
qed

lemma write_post_current_step:
  assumes "0 < pageSize s" and "offset = ro + bw" and "bw < length d"
    and "n = min (pageSize s - offset mod pageSize s) (length d - bw)"
    and "bitmask s = None \<or> isBitSet s offset n"
    and "getPage (offset div pageSize s) s = (Inr pg, s1)"
    and "write_post
           (writePage (offset div pageSize s) (offset mod pageSize s) n
              (subarray d bw (bw + n)) pg s1)
           ro d (offset + n) s' (offset div pageSize s)"
  shows "write_post s ro d offset s' (offset div pageSize s)"
proof -
  have lt: "offset < ro + length d" using assms(2,3) by simp
  have n: "n = min (pageSize s - offset mod pageSize s) (ro + length d - offset)"
    using assms(2,4) by simp
  note cc = chunk_current[OF assms(1) lt n]
  note fr = getPage_frame[OF assms(6)]
  have pass: "chunk_passes s offset (ro + length d) (offset div pageSize s)"
    using assms(5) cc by (auto simp: chunk_passes_def)
  have g: "fst (getPage (offset div pageSize s) s) = Inr pg" using assms(6) by simp
  have sub: "offset - ro = bw" "offset + n - ro = bw + n" using assms(2) by simp_all
  from assms(7) cc(4) fr(1) pass g show ?thesis
    by (simp add: write_post_def Let_def writePage_eq cc(1,2,3) update_conv' sub)
qed

lemma writeNext_post:
  assumes "offset = ro + bw" and "writeNext ro d bw offset s = (Inr (), s')"
  shows "write_post s ro d offset s' q"
proof -
  let ?P = "\<lambda>ro d bw offset s res.
     offset = ro + bw \<longrightarrow> fst res = Inr () \<longrightarrow> (\<forall>q. write_post s ro d offset (snd res) q)"
  have "?P ro d bw offset s (writeNext ro d bw offset s)"
  proof (rule writeNext_rule[where P = ?P], goal_cases)
    case (1 ro d bw offset s)
    then show ?case by (auto simp: write_post_def Let_def chunk_none)
  next
    case 2 then show ?case by simp
  next
    case (3 ro d bw offset s n res)
    show ?case
    proof (intro impI allI)
      fix q assume o: "offset = ro + bw" and ok: "fst res = Inr ()"
      from 3(6) o ok have ih: "\<And>q. write_post s ro d (offset + n) (snd res) q" by simp
      have lt: "offset < ro + length d" using 3(1) o by simp
      have n: "n = min (pageSize s - offset mod pageSize s) (ro + length d - offset)"
        using 3(3) o by simp
      show "write_post s ro d offset (snd res) q"
      proof (cases "q = offset div pageSize s")
        case True
        with write_post_current_skip[OF 3(2) lt n 3(4) 3(5) ih] show ?thesis by simp
      next
        case False
        from write_post_other[OF 3(2) lt n False refl refl refl refl refl ih]
        show ?thesis .
      qed
    qed
  next
    case 4 then show ?case by simp
  next
    case (5 ro d bw offset s n pg s1 res)
    let ?q0 = "offset div pageSize s"
    let ?s2 = "writePage ?q0 (offset mod pageSize s) n (subarray d bw (bw + n)) pg s1"
    show ?case
    proof (intro impI allI)
      fix q assume o: "offset = ro + bw" and ok: "fst res = Inr ()"
      from 5(6) o ok have ih: "\<And>q. write_post ?s2 ro d (offset + n) (snd res) q" by simp
      have bw: "bw < length d" using 5(1) by simp
      have lt: "offset < ro + length d" using 5(1) o by simp
      have n: "n = min (pageSize s - offset mod pageSize s) (ro + length d - offset)"
        using 5(3) o by simp
      note fr = getPage_frame[OF 5(5)]
      show "write_post s ro d offset (snd res) q"
      proof (cases "q = ?q0")
        case True
        with write_post_current_step[OF 5(2) o bw 5(3) 5(4) 5(5) ih] show ?thesis by simp
      next
        case False
        have pg: "map_of (pages ?s2) q = map_of (pages s) q"
          using getPage_pages(1)[OF 5(5) False] False by (simp add: writePage_eq update_conv')
        have md: "(q \<in> modifiedPages ?s2) = (q \<in> modifiedPages s)"
          using False fr by (simp add: writePage_eq)
        have gp: "fst (getPage q ?s2) = fst (getPage q s)"
          by (rule fst_getPage_cong[OF pg]) (simp_all add: writePage_eq fr)
        have ps2: "pageSize ?s2 = pageSize s" and bm2: "bitmask ?s2 = bitmask s"
          by (simp_all add: writePage_eq fr)
        from write_post_other[OF 5(2) lt n False ps2 bm2 gp pg md ih]
        show ?thesis .
      qed
    qed
  qed
  with assms show ?thesis by simp
qed

section \<open>The read loop\<close>

lemma same_page:
  assumes "0 < (ps::nat)" and "j < ps - offset mod ps"
  shows "(offset + j) div ps = offset div ps" and "(offset + j) mod ps = offset mod ps + j"
proof -
  have o: "offset = offset div ps * ps + offset mod ps" by simp
  have "offset div ps * ps \<le> offset + j \<and> offset + j < offset div ps * ps + ps"
    using o assms(2) by linarith
  then show d: "(offset + j) div ps = offset div ps"
    using div_eq_iff_range[OF assms(1), of "offset + j" "offset div ps"] by simp
  have "(offset + j) mod ps = offset + j - (offset + j) div ps * ps"
    by (simp add: modulo_nat_def mult.commute)
  also have "\<dots> = offset mod ps + j" unfolding d using o by linarith
  finally show "(offset + j) mod ps = offset mod ps + j" .
qed

lemma length_subarray: "length (subarray b a e) = min (e - a) (length b - a)"
  by (simp add: subarray_def)

lemma nth_subarray: "j < length (subarray b a e) \<Longrightarrow> subarray b a e ! j = b ! (a + j)"
  by (auto simp: subarray_def)

lemma nth_buffer_set:
  "pos + length src \<le> length buf \<Longrightarrow> k < length buf \<Longrightarrow>
   buffer_set buf src pos ! k =
     (if pos \<le> k \<and> k < pos + length src then src ! (k - pos) else buf ! k)"
  by (auto simp: buffer_set_def nth_append min_def)

lemma read_byte_cong:
  "pages s2 = pages s \<Longrightarrow> pageSize s2 = pageSize s \<Longrightarrow> read_byte s2 = read_byte s"
  by (auto simp: read_byte_def fun_eq_iff split: option.splits)

lemma readNext_resident:
  "0 < pageSize s \<Longrightarrow> offset = ro + br \<Longrightarrow> length buf = n \<Longrightarrow>
   (\<forall>x. offset \<le> x \<and> x < ro + n \<longrightarrow> map_of (pages s) (x div pageSize s) \<noteq> None) \<Longrightarrow>
   \<exists>buf' s'. readNext n buf br offset s = (Inr buf', s') \<and> length buf' = n \<and>
     (\<forall>k<n. buf' ! k = (if k < br then buf ! k else read_byte s (ro + k) (buf ! k)))"
proof (induction n buf br offset s rule: readNext.induct)
  case (1 n buf br offset s)
  let ?ps = "pageSize s"
  let ?q = "offset div ?ps"
  let ?po = "offset mod ?ps"
  let ?m = "min (?ps - ?po) (n - br)"
  show ?case
  proof (cases "n \<le> br")
    case True
    then show ?thesis using "1.prems" by (subst readNext.simps) simp
  next
    case False
    then have lt: "offset < ro + n" using "1.prems"(2) by simp
    with "1.prems"(4) obtain pg where pg: "map_of (pages s) ?q = Some pg" by auto
    then have g: "getPage ?q s = (Inr pg, s)" by (simp add: getPage_def)
    let ?src = "subarray (data pg) ?po (?po + ?m)"
    let ?buf1 = "buffer_set buf ?src br"
    let ?s2 = "touchPage ?q s"
    have psnz: "?ps \<noteq> 0" using "1.prems"(1) by simp
    have m: "0 < ?m" "br + ?m \<le> n" "?m \<le> ?ps - ?po"
    proof -
      have "?po < ?ps" using "1.prems"(1) by simp
      with False show "0 < ?m" "br + ?m \<le> n" "?m \<le> ?ps - ?po" by linarith+
    qed
    have lsrc: "length ?src \<le> ?m" unfolding length_subarray by linarith
    have fit: "br + length ?src \<le> length buf" using lsrc m(2) "1.prems"(3) by linarith
    have len1: "length ?buf1 = n" using buffer_set_length[OF fit] "1.prems"(3) by simp
    have eq: "readNext n buf br offset s = readNext n ?buf1 (br + ?m) (offset + ?m) ?s2"
      using False psnz g by (subst readNext.simps) (simp add: Let_def)
    have res: "\<forall>x. offset + ?m \<le> x \<and> x < ro + n \<longrightarrow> map_of (pages ?s2) (x div pageSize ?s2) \<noteq> None"
      using "1.prems"(4) by (simp add: touchPage_eq)
    have "\<exists>buf' s'. readNext n ?buf1 (br + ?m) (offset + ?m) ?s2 = (Inr buf', s') \<and>
            length buf' = n \<and>
            (\<forall>k<n. buf' ! k =
               (if k < br + ?m then ?buf1 ! k else read_byte ?s2 (ro + k) (?buf1 ! k)))"
      using "1.IH"(2)[OF False psnz refl refl refl g[symmetric] refl refl refl _ _ len1 res]
        "1.prems"(1,2) by (simp add: touchPage_eq)
    then obtain buf' s' where r: "readNext n ?buf1 (br + ?m) (offset + ?m) ?s2 = (Inr buf', s')"
      and l: "length buf' = n"
      and v: "\<And>k. k < n \<Longrightarrow> buf' ! k =
               (if k < br + ?m then ?buf1 ! k else read_byte ?s2 (ro + k) (?buf1 ! k))"
      by blast
    have rb: "read_byte ?s2 = read_byte s"
      by (rule read_byte_cong) (simp_all add: touchPage_eq)
    have "buf' ! k = (if k < br then buf ! k else read_byte s (ro + k) (buf ! k))" if k: "k < n" for k
    proof -
      have kb: "k < length buf" using k "1.prems"(3) by simp
      note b1 = nth_buffer_set[OF fit kb]
      consider (lo) "k < br" | (mid) "br \<le> k" "k < br + ?m" | (hi) "br + ?m \<le> k"
        by linarith
      then show ?thesis
      proof cases
        case lo
        then show ?thesis using v[OF k] b1 by simp
      next
        case mid
        let ?j = "k - br"
        have j: "?j < ?ps - ?po" using mid m(3) by linarith
        have x: "ro + k = offset + ?j" using mid "1.prems"(2) by simp
        note sp = same_page[OF "1.prems"(1) j]
        have rbk: "read_byte s (ro + k) (buf ! k) =
                   (if ?po + ?j < length (data pg) then data pg ! (?po + ?j) else buf ! k)"
          unfolding x by (simp add: read_byte_def sp pg)
        have ls: "length ?src = min ?m (length (data pg) - ?po)" by (simp add: length_subarray)
        show ?thesis
        proof (cases "?po + ?j < length (data pg)")
          case True
          then have jl: "?j < length ?src" unfolding ls using mid by linarith
          then have kk: "k < br + length ?src" using mid by linarith
          show ?thesis
            using nth_subarray[OF jl] True mid v[OF k] b1 rbk kk by simp
        next
          case nt: False
          then have "\<not> ?j < length ?src" unfolding ls by linarith
          then have kk: "\<not> k < br + length ?src" using mid by linarith
          show ?thesis
            using nt mid v[OF k] b1 rbk kk by simp
        qed
      next
        case hi
        then have "\<not> k < br + length ?src" using lsrc by linarith
        with hi v[OF k] b1 rb show ?thesis by simp
      qed
    qed
    with r l eq show ?thesis by simp
  qed
qed

section \<open>Bytes after a write\<close>

lemma mod_eq_diff: "x div ps = q \<Longrightarrow> x mod ps = x - q * (ps::nat)"
  by (auto simp: modulo_nat_def mult.commute)

lemma chunk_geometry:
  assumes "0 < ps" and "x div ps = q" and "ro \<le> x" and "x < e"
  shows "chunk_start ro ps q \<le> x" and "x < chunk_end e ps q"
    and "chunk_start ro ps q mod ps = chunk_start ro ps q - q * ps"
    and "q * ps \<le> chunk_start ro ps q" and "ro \<le> chunk_start ro ps q"
    and "chunk_end e ps q \<le> e" and "x mod ps = x - q * ps"
proof -
  from div_eq_iff_range[OF assms(1), of x q] assms(2)
  have x: "q * ps \<le> x" "x < q * ps + ps" by simp_all
  show 1: "chunk_start ro ps q \<le> x" and 2: "x < chunk_end e ps q"
    using x assms(3,4) by (simp_all add: chunk_start_def chunk_end_def)
  show 4: "q * ps \<le> chunk_start ro ps q" and "ro \<le> chunk_start ro ps q"
    and "chunk_end e ps q \<le> e"
    by (simp_all add: chunk_start_def chunk_end_def)
  have "chunk_start ro ps q < q * ps + ps" using 1 x by linarith
  with 4 have "chunk_start ro ps q div ps = q"
    using div_eq_iff_range[OF assms(1), of "chunk_start ro ps q" q] by simp
  then show "chunk_start ro ps q mod ps = chunk_start ro ps q - q * ps" by (rule mod_eq_diff)
  show "x mod ps = x - q * ps" using assms(2) by (rule mod_eq_diff)
qed

lemma write_post_written:
  assumes ps: "0 < pageSize s" and wp: "write_post s ro d ro s' q"
    and pass: "chunk_passes s ro (ro + length d) q"
    and x: "x div pageSize s = q" "ro \<le> x" "x < ro + length d"
  shows "\<exists>pg'. map_of (pages s') q = Some pg' \<and> x mod pageSize s < length (data pg') \<and>
           data pg' ! (x mod pageSize s) = d ! (x - ro)"
proof -
  let ?ps = "pageSize s"
  let ?e = "ro + length d"
  let ?cs = "chunk_start ro ?ps q"
  let ?ce = "chunk_end ?e ?ps q"
  let ?src = "subarray d (?cs - ro) (?ce - ro)"
  note g = chunk_geometry[OF ps x(1) x(2) x(3)]
  have ir: "page_in_range ro ?e ?ps q"
    using g(1,2) by (simp add: page_in_range_def)
  from wp ir pass obtain pg0 where
    pg: "map_of (pages s') q = Some (page_write (?cs mod ?ps) (?ce - ?cs) ?src pg0)"
    by (auto simp: write_post_def Let_def)
  let ?pg = "page_write (?cs mod ?ps) (?ce - ?cs) ?src pg0"
  have ls: "length ?src = ?ce - ?cs"
    unfolding length_subarray using g(1,2,5,6) by linarith
  let ?j = "x mod ?ps"
  have j: "?cs mod ?ps \<le> ?j" "?j < ?cs mod ?ps + (?ce - ?cs)" "?j - ?cs mod ?ps = x - ?cs"
    unfolding g(3) g(7) using g(1,2,4) by linarith+
  have "byte_at (data ?pg) ?j = ?src ! (?j - ?cs mod ?ps)"
    unfolding page_write_byte[OF ls] using j(1,2) by (simp only: simp_thms if_True)
  then have "byte_at (data ?pg) ?j = ?src ! (x - ?cs)" unfolding j(3) .
  moreover have "x - ?cs < length ?src" unfolding ls using g(1,2) by linarith
  then have "?src ! (x - ?cs) = d ! (?cs - ro + (x - ?cs))" by (rule nth_subarray)
  moreover have "?cs - ro + (x - ?cs) = x - ro" using g(1,5) by linarith
  moreover have "?j < length (data ?pg)"
    unfolding page_write_length[OF ls] using j(2) by linarith
  ultimately show ?thesis using pg by (simp add: byte_at_def)
qed

lemma write_post_unwritten:
  assumes ps: "0 < pageSize s" and wp: "write_post s ro d ro s' q"
    and ir: "page_in_range ro (ro + length d) (pageSize s) q"
    and pass: "chunk_passes s ro (ro + length d) q"
    and x: "x div pageSize s = q" "x < ro \<or> ro + length d \<le> x"
  shows "\<exists>pg0 pg'. fst (getPage q s) = Inr pg0 \<and> map_of (pages s') q = Some pg' \<and>
           byte_at (data pg') (x mod pageSize s) = byte_at (data pg0) (x mod pageSize s)"
proof -
  let ?ps = "pageSize s"
  let ?e = "ro + length d"
  let ?cs = "chunk_start ro ?ps q"
  let ?ce = "chunk_end ?e ?ps q"
  let ?src = "subarray d (?cs - ro) (?ce - ro)"
  from wp ir pass obtain pg0 where g0: "fst (getPage q s) = Inr pg0" and
    pg: "map_of (pages s') q = Some (page_write (?cs mod ?ps) (?ce - ?cs) ?src pg0)"
    by (auto simp: write_post_def Let_def)
  from ir have lt: "?cs < ?ce" by (simp add: page_in_range_def)
  have b: "ro \<le> ?cs" "?ce \<le> ?e" "q * ?ps \<le> ?cs" "?ce \<le> q * ?ps + ?ps"
    by (simp_all add: chunk_start_def chunk_end_def)
  have "?cs div ?ps = q"
    using div_eq_iff_range[OF ps, of ?cs q] b lt by linarith
  then have cm: "?cs mod ?ps = ?cs - q * ?ps" by (rule mod_eq_diff)
  have xm: "x mod ?ps = x - q * ?ps" using x(1) by (rule mod_eq_diff)
  from div_eq_iff_range[OF ps, of x q] x(1)
  have xr: "q * ?ps \<le> x" "x < q * ?ps + ?ps" by simp_all
  have ls: "length ?src = ?ce - ?cs"
    unfolding length_subarray using b lt by linarith
  have out: "\<not> (?cs mod ?ps \<le> x mod ?ps \<and> x mod ?ps < ?cs mod ?ps + (?ce - ?cs))"
    unfolding cm xm using x(2) b lt xr by linarith
  show ?thesis
    using page_write_byte[OF ls, of "?cs mod ?ps" pg0 "x mod ?ps"] out g0 pg by simp
qed

lemma read_one:
  assumes "opened s" and "0 < pageSize s"
  shows "fst (read x 1 s) =
     (if \<not> fileExists s then Inl (Error ''File does not exist'')
      else if (case strictSizeLimit s of None \<Rightarrow> False | Some l \<Rightarrow> x + 1 > l) then
        Inl (Error ''Read exceeds strict size enforcement'')
      else (case fst (getPage (x div pageSize s) s) of
              Inl err \<Rightarrow>
                if msg_includes (message err) ''Read exceeds storage size'' then Inr [0]
                else Inl err
            | Inr pg \<Rightarrow> Inr [byte_at (data pg) (x mod pageSize s)]))"
proof -
  obtain r s1 where g: "getPage (x div pageSize s) s = (r, s1)"
    by (cases "getPage (x div pageSize s) s")
  have m: "min (pageSize s - x mod pageSize s) (Suc 0) = Suc 0"
    using assms(2) mod_less_divisor[OF assms(2), of x] by linarith
  have b: "buffer_set [0] (subarray (data pg) j (Suc j)) 0 = [byte_at (data pg) j]" for pg j
    by (cases "drop j (data pg)")
       (auto simp: buffer_set_def subarray_def byte_at_def nth_via_drop)
  show ?thesis
    using assms g
    by (cases r)
       (simp_all add: read_def ensureOpen_opened readNext.simps[of "Suc 0" _ 0]
          readNext.simps[of "Suc 0" _ "Suc 0"] Let_def alloc_def m b split: option.splits)
qed

lemma store_write_ok:
  assumes "opened s" and "store_write ro d s = (Inr (), s')"
  shows "writeNext ro d 0 ro s = (Inr (), s')"
    and "(case strictSizeLimit s of None \<Rightarrow> True | Some l \<Rightarrow> ro + length d \<le> l)"
  using assms
  by (auto simp: store_write_def ensureOpen_opened split: if_splits option.splits)

lemma eval_pair: "fst p = a \<Longrightarrow> p = (a, snd p)"
  by (cases p) simp

lemmas chunk_defs = chunk_start_def chunk_end_def page_in_range_def chunk_passes_def

lemma fetchPage_byte:
  assumes "fetchPage q s = Inr pg" and "fileExists s" and "supports s ''read''"
    and "0 < pageSize s" and "x div pageSize s = q" and "x < overlay_size s"
  shows "byte_at (data pg) (x mod pageSize s) = contents (underlying s) ! x"
proof -
  let ?ps = "pageSize s"
  let ?n = "min ?ps (overlay_size s - q * ?ps)"
  from div_eq_iff_range[OF assms(4), of x q] assms(5)
  have xr: "q * ?ps \<le> x" "x < q * ?ps + ?ps" by simp_all
  have xm: "x mod ?ps = x - q * ?ps" using assms(5) by (rule mod_eq_diff)
  have n: "0 < ?n" "x - q * ?ps < ?n" "?n \<le> ?ps" using xr assms(6) by linarith+
  from assms(1,2,3) n(1) obtain buf where
    rd: "b_read (underlying s) (q * ?ps) ?n = Inr buf" and
    pg: "data pg = buffer_set (alloc ?ps) (subarray buf 0 ?n) 0"
    by (auto simp: fetchPage_def Let_def split: sum.splits)
  from rd have buf: "buf = take ?n (drop (q * ?ps) (contents (underlying s)))"
    and fit: "q * ?ps + ?n \<le> length (contents (underlying s))"
    by (auto simp: b_read_def split: if_splits)
  have lb: "length buf = ?n" unfolding buf using fit by simp
  have ls: "length (subarray buf 0 ?n) = ?n" unfolding length_subarray lb by simp
  have "byte_at (data pg) (x - q * ?ps) = subarray buf 0 ?n ! (x - q * ?ps)"
    unfolding pg using byte_at_buffer_set[of 0 "subarray buf 0 ?n" "alloc ?ps" "x - q * ?ps"]
      ls n by (simp add: alloc_def)
  also have "\<dots> = buf ! (x - q * ?ps)"
    using nth_subarray[of "x - q * ?ps" buf 0 ?n] ls n(2) by simp
  also have "\<dots> = contents (underlying s) ! (q * ?ps + (x - q * ?ps))"
    unfolding buf using n(2) fit by simp
  also have "q * ?ps + (x - q * ?ps) = x" using xr by simp
  finally show ?thesis unfolding xm .
qed

lemma writeNext_all_skipped:
  assumes "0 < pageSize s" and "offset = ro + bw"
    and "\<forall>q. page_in_range offset (ro + length d) (pageSize s) q \<longrightarrow>
             \<not> chunk_passes s offset (ro + length d) q"
  shows "writeNext ro d bw offset s =
           (Inr (), s\<lparr>overlay_size := max (overlay_size s) (ro + length d)\<rparr>)"
proof -
  let ?P = "\<lambda>ro d bw offset s res.
     0 < pageSize s \<longrightarrow> offset = ro + bw \<longrightarrow>
     (\<forall>q. page_in_range offset (ro + length d) (pageSize s) q \<longrightarrow>
          \<not> chunk_passes s offset (ro + length d) q) \<longrightarrow>
     res = (Inr (), s\<lparr>overlay_size := max (overlay_size s) (ro + length d)\<rparr>)"
  have "?P ro d bw offset s (writeNext ro d bw offset s)"
  proof (rule writeNext_rule[where P = ?P], goal_cases)
    case 1 then show ?case by simp
  next
    case 2 then show ?case by simp
  next
    case (3 ro d bw offset s n res)
    show ?case
    proof (intro impI)
      assume ps: "0 < pageSize s" and o: "offset = ro + bw"
        and sk: "\<forall>q. page_in_range offset (ro + length d) (pageSize s) q \<longrightarrow>
                     \<not> chunk_passes s offset (ro + length d) q"
      have lt: "offset < ro + length d" using 3(1) o by simp
      have n: "n = min (pageSize s - offset mod pageSize s) (ro + length d - offset)"
        using 3(3) o by simp
      have "\<not> chunk_passes s (offset + n) (ro + length d) q"
        if ir: "page_in_range (offset + n) (ro + length d) (pageSize s) q" for q
      proof -
        from chunk_current(4)[OF ps lt n] ir have ne: "q \<noteq> offset div pageSize s" by auto
        note co = chunk_other[OF ps lt n ne]
        from ir co(1) have ir0: "page_in_range offset (ro + length d) (pageSize s) q" by simp
        with sk have "\<not> chunk_passes s offset (ro + length d) q" by simp
        then show ?thesis by (simp add: chunk_passes_def co(2)[OF ir0])
      qed
      with 3(6) ps o show "res = (Inr (), s\<lparr>overlay_size := max (overlay_size s) (ro + length d)\<rparr>)"
        by simp
    qed
  next
    case (4 ro d bw offset s n err s1)
    show ?case
    proof (intro impI)
      assume ps: "0 < pageSize s" and o: "offset = ro + bw"
        and sk: "\<forall>q. page_in_range offset (ro + length d) (pageSize s) q \<longrightarrow>
                     \<not> chunk_passes s offset (ro + length d) q"
      have lt: "offset < ro + length d" using 4(1) o by simp
      have n: "n = min (pageSize s - offset mod pageSize s) (ro + length d - offset)"
        using 4(3) o by simp
      note cc = chunk_current[OF ps lt n]
      from 4(4) cc have "chunk_passes s offset (ro + length d) (offset div pageSize s)"
        by (auto simp: chunk_passes_def)
      with sk cc(3) show "(Inl err, s1) =
          (Inr (), s\<lparr>overlay_size := max (overlay_size s) (ro + length d)\<rparr>)" by blast
    qed
  next
    case (5 ro d bw offset s n pg s1 res)
    show ?case
    proof (intro impI)
      assume ps: "0 < pageSize s" and o: "offset = ro + bw"
        and sk: "\<forall>q. page_in_range offset (ro + length d) (pageSize s) q \<longrightarrow>
                     \<not> chunk_passes s offset (ro + length d) q"
      have lt: "offset < ro + length d" using 5(1) o by simp
      have n: "n = min (pageSize s - offset mod pageSize s) (ro + length d - offset)"
        using 5(3) o by simp
      note cc = chunk_current[OF ps lt n]
      from 5(4) cc have "chunk_passes s offset (ro + length d) (offset div pageSize s)"
        by (auto simp: chunk_passes_def)
      with sk cc(3) show "res = (Inr (), s\<lparr>overlay_size := max (overlay_size s) (ro + length d)\<rparr>)"
        by blast
    qed
  qed
  with assms show ?thesis by simp
qed

section \<open>Facts about the backend and flush\<close>

lemma b_write_eq: "b_write b offset buf = Inr (b\<lparr>contents := mem_write offset buf (contents b)\<rparr>)"
  by (simp add: b_write_def mem_write_def Let_def)

lemma b_truncate_eq: "b_truncate b n = Inr (b\<lparr>contents := mem_resize n (contents b)\<rparr>)"
  by (simp add: b_truncate_def mem_resize_def)

lemma length_mem_write: "length (mem_write offset buf c) = max (length c) (offset + length buf)"
  by (auto simp: mem_write_def Let_def)

lemma byte_at_mem_write:
  "byte_at (mem_write offset buf c) i =
     (if offset \<le> i \<and> i < offset + length buf then buf ! (i - offset) else byte_at c i)"
  by (auto simp: mem_write_def Let_def byte_at_def nth_append min_def)

lemma length_mem_resize: "length (mem_resize n c) = n"
  by (auto simp: mem_resize_def)

lemma byte_at_mem_resize: "byte_at (mem_resize n c) i = (if i < n then byte_at c i else 0)"
  by (auto simp: mem_resize_def byte_at_def nth_append)

lemma buffer_eqI:
  assumes "length a = length b" and "\<And>i. i < length a \<Longrightarrow> byte_at a i = byte_at b i"
  shows "a = (b::buffer)"
  using assms by (auto simp: byte_at_def intro: nth_equalityI)

lemma fold_max_shift:
  "fold (\<lambda>(offset, buf) m. max m (offset + length buf)) ws (max a b)
   = max a (fold (\<lambda>(offset, buf) m. max m (offset + length buf)) ws b)"
  by (induction ws arbitrary: b) (auto simp: max.assoc)

lemma length_mem_writes: "length (mem_writes ws c) = max (length c) (writes_end ws)"
proof (induction ws arbitrary: c)
  case Nil
  then show ?case by (simp add: mem_writes_def writes_end_def)
next
  case (Cons w ws)
  obtain offset buf where w: "w = (offset, buf)" by (cases w)
  have "length (mem_writes (w # ws) c) = max (length (mem_write offset buf c)) (writes_end ws)"
    using Cons.IH[of "mem_write offset buf c"] by (simp add: mem_writes_def w)
  also have "\<dots> = max (length c) (max (offset + length buf) (writes_end ws))"
    by (simp add: length_mem_write max.assoc)
  also have "max (offset + length buf) (writes_end ws) = writes_end (w # ws)"
    using fold_max_shift[of ws "offset + length buf" 0] by (simp add: writes_end_def w)
  finally show ?case .
qed

lemma byte_at_mem_writes:
  "byte_at (mem_writes ws c) i = (case last_cover ws i of Some v \<Rightarrow> v | None \<Rightarrow> byte_at c i)"
proof (induction ws arbitrary: c)
  case Nil
  then show ?case by (simp add: mem_writes_def)
next
  case (Cons w ws)
  obtain offset buf where w: "w = (offset, buf)" by (cases w)
  have "byte_at (mem_writes (w # ws) c) i =
        (case last_cover ws i of Some v \<Rightarrow> v | None \<Rightarrow> byte_at (mem_write offset buf c) i)"
    using Cons.IH[of "mem_write offset buf c"] by (simp add: mem_writes_def w)
  then show ?case by (simp add: w byte_at_mem_write split: option.splits)
qed

lemma mem_writes_idem: "mem_writes ws (mem_writes ws c) = mem_writes ws c"
  by (rule buffer_eqI)
     (simp_all add: length_mem_writes byte_at_mem_writes split: option.splits)

lemma mem_writes_resize_idem:
  "mem_resize n (mem_writes ws (mem_resize n (mem_writes ws c))) = mem_resize n (mem_writes ws c)"
  by (rule buffer_eqI)
     (simp_all add: length_mem_resize byte_at_mem_resize byte_at_mem_writes split: option.splits)

lemma map_of_clean_page:
  "map_of (clean_page q al) p =
     (if p = q then map_option (\<lambda>pg. pg\<lparr>modified := False\<rparr>) (map_of al p) else map_of al p)"
  by (auto simp: clean_page_def update_conv' split: option.splits)

lemma map_of_fold_clean:
  "map_of (fold clean_page qs al) p =
     (if p \<in> set qs then map_option (\<lambda>pg. pg\<lparr>modified := False\<rparr>) (map_of al p)
      else map_of al p)"
  by (induction qs arbitrary: al)
     (auto simp: map_of_clean_page option.map_comp o_def split: option.splits)

lemma fold_clean_id:
  "\<forall>q\<in>set qs. \<not> is_dirty al q \<Longrightarrow> fold clean_page qs al = al"
  by (induction qs arbitrary: al) (auto simp: clean_page_def is_dirty_def split: option.splits)

lemma fold_clean_clean: "q \<in> set qs \<Longrightarrow> \<not> is_dirty (fold clean_page qs al) q"
  by (simp add: is_dirty_def map_of_fold_clean split: option.splits)

lemma fold_clean_idem: "fold clean_page qs (fold clean_page qs al) = fold clean_page qs al"
  by (rule fold_clean_id) (simp add: fold_clean_clean)

lemma flushNext_step:
  "flushNext offset end sp ep (q # rest) s =
     flushNext offset end sp ep rest (flush_page offset end sp ep q s)"
  by (auto simp: Let_def b_write_eq flush_chunk_def page_data_def clean_page_def is_dirty_def
      flush_page_def split: option.splits)

lemma flushNext_eq:
  "flushNext offset end sp ep qs s =
     (Inr (), flush_finish end (fold (flush_page offset end sp ep) qs s))"
proof (induction qs arbitrary: s)
  case Nil
  show ?case by (simp add: flush_finish_def b_truncate_eq)
next
  case (Cons q qs)
  show ?case unfolding flushNext_step Cons.IH by simp
qed

lemma page_data_flush_page: "page_data (flush_page offset end sp ep q s) = page_data s"
  by (auto simp: page_data_def flush_page_def map_of_clean_page fun_eq_iff option.map_comp o_def)

lemma flush_pages_fields:
  "pageSize (fold (flush_page offset end sp ep) qs s) = pageSize s"
  "overlay_size (fold (flush_page offset end sp ep) qs s) = overlay_size s"
  "opened (fold (flush_page offset end sp ep) qs s) = opened s"
  "methods (underlying (fold (flush_page offset end sp ep) qs s)) = methods (underlying s)"
  "page_data (fold (flush_page offset end sp ep) qs s) = page_data s"
  "pages (fold (flush_page offset end sp ep) qs s) = fold clean_page qs (pages s)"
proof (induction qs arbitrary: s)
  case Nil
  {
    case 1 show ?case by simp
  next
    case 2 show ?case by simp
  next
    case 3 show ?case by simp
  next
    case 4 show ?case by simp
  next
    case 5 show ?case by simp
  next
    case 6 show ?case by simp
  }
next
  case (Cons q qs)
  {
    case 1 show ?case by (simp add: Cons.IH) (simp add: flush_page_def)
  next
    case 2 show ?case by (simp add: Cons.IH) (simp add: flush_page_def)
  next
    case 3 show ?case by (simp add: Cons.IH) (simp add: flush_page_def)
  next
    case 4 show ?case by (simp add: Cons.IH) (simp add: flush_page_def)
  next
    case 5 show ?case by (simp add: Cons.IH page_data_flush_page)
  next
    case 6 show ?case by (simp add: Cons.IH) (simp add: flush_page_def)
  }
qed

lemma flush_pages_contents:
  "contents (underlying (fold (flush_page offset end sp ep) qs s)) =
     mem_writes (map (flush_chunk (pageSize s) (page_data s) offset end sp ep) qs)
       (contents (underlying s))"
proof (induction qs arbitrary: s)
  case Nil
  show ?case by (simp add: mem_writes_def)
next
  case (Cons q qs)
  have ps: "pageSize (flush_page offset end sp ep q s) = pageSize s"
    by (simp add: flush_page_def)
  show ?case
    unfolding fold_simps Cons.IH ps page_data_flush_page
    by (simp add: mem_writes_def flush_page_def case_prod_beta)
qed

lemma flush_pages_frame:
  "fold (flush_page offset end sp ep) qs s =
     s\<lparr>underlying := underlying (fold (flush_page offset end sp ep) qs s),
       pages := pages (fold (flush_page offset end sp ep) qs s),
       modifiedPages := modifiedPages (fold (flush_page offset end sp ep) qs s)\<rparr>"
proof (induction qs arbitrary: s)
  case Nil
  show ?case by simp
next
  case (Cons q qs)
  show ?case
    unfolding fold_simps
    by (subst Cons.IH) (simp add: flush_page_def)
qed

lemma flush_pages_modified:
  "modifiedPages (fold (flush_page offset end sp ep) qs s) =
     modifiedPages s - {q \<in> set qs. is_dirty (pages s) q}"
proof (induction qs arbitrary: s)
  case Nil
  show ?case by simp
next
  case (Cons q qs)
  have d: "is_dirty (pages (flush_page offset end sp ep q s)) p =
           (p \<noteq> q \<and> is_dirty (pages s) p)" for p
    by (auto simp: is_dirty_def flush_page_def map_of_clean_page split: option.splits)
  have m: "modifiedPages (flush_page offset end sp ep q s) =
           (if is_dirty (pages s) q then modifiedPages s - {q} else modifiedPages s)"
    by (simp add: flush_page_def)
  show ?case unfolding fold_simps Cons.IH d m by auto
qed

lemma flush_finish_fields:
  "pages (flush_finish e s) = pages s"
  "modifiedPages (flush_finish e s) = modifiedPages s"
  "pageSize (flush_finish e s) = pageSize s"
  "overlay_size (flush_finish e s) = overlay_size s"
  "opened (flush_finish e s) = opened s"
  "methods (underlying (flush_finish e s)) = methods (underlying s)"
  "page_data (flush_finish e s) = page_data s"
  "contents (underlying (flush_finish e s)) =
     (if overlay_size s < e \<and> supports s ''truncate''
      then mem_resize (overlay_size s) (contents (underlying s))
      else contents (underlying s))"
  by (simp_all add: flush_finish_def page_data_def fun_eq_iff)

lemma flush_finish_frame: "flush_finish e s = s\<lparr>underlying := underlying (flush_finish e s)\<rparr>"
  by (simp add: flush_finish_def)

lemma flush_eq:
  assumes "opened s"
  shows "flush offset sz s =
    (Inr (),
     flush_finish (offset + min sz (overlay_size s))
       (fold (flush_page offset (offset + min sz (overlay_size s)) (offset div pageSize s)
                ((offset + min sz (overlay_size s) - 1) div pageSize s))
          (flushed_pages s offset sz) s))"
  unfolding flush_def ensureOpen_opened[OF assms] performFlush_def flushNext_eq
    flushed_pages_def Let_def
  by (simp only: sum.case)

lemma flush_fixpoint:
  "flush_finish e
     (fold (flush_page offset e sp ep) qs
        (flush_finish e (fold (flush_page offset e sp ep) qs s)))
   = flush_finish e (fold (flush_page offset e sp ep) qs s)"
proof -
  define s1 where "s1 = flush_finish e (fold (flush_page offset e sp ep) qs s)"
  let ?t = "fold (flush_page offset e sp ep) qs s"
  let ?t2 = "fold (flush_page offset e sp ep) qs s1"
  let ?ws = "map (flush_chunk (pageSize s) (page_data s) offset e sp ep) qs"
  let ?c0 = "contents (underlying s)"
  have f1: "pageSize s1 = pageSize s" "overlay_size s1 = overlay_size s"
    "methods (underlying s1) = methods (underlying s)" "page_data s1 = page_data s"
    "pages s1 = fold clean_page qs (pages s)"
    by (simp_all add: s1_def flush_finish_fields flush_pages_fields)
  have sup: "supports s1 ''truncate'' = supports s ''truncate''"
    "supports ?t ''truncate'' = supports s ''truncate''"
    "supports ?t2 ''truncate'' = supports s ''truncate''"
    by (simp_all add: supports_def f1 flush_pages_fields)
  have c1: "contents (underlying s1) =
              (if overlay_size s < e \<and> supports s ''truncate''
               then mem_resize (overlay_size s) (mem_writes ?ws ?c0) else mem_writes ?ws ?c0)"
    by (simp add: s1_def flush_finish_fields flush_pages_fields flush_pages_contents sup)
  have c2: "contents (underlying (flush_finish e ?t2)) = contents (underlying s1)"
    by (simp add: flush_finish_fields flush_pages_fields flush_pages_contents sup f1 c1
        mem_writes_idem mem_writes_resize_idem)
  have m2: "methods (underlying (flush_finish e ?t2)) = methods (underlying s1)"
    by (simp add: flush_finish_fields flush_pages_fields)
  have u: "underlying (flush_finish e ?t2) = underlying s1"
    using c2 m2 by (simp add: backend.equality)
  have p: "pages ?t2 = pages s1"
    by (simp add: flush_pages_fields f1 fold_clean_idem)
  have "{q \<in> set qs. is_dirty (pages s1) q} = {}"
    using fold_clean_clean[of _ qs "pages s"] by (auto simp: f1)
  then have m: "modifiedPages ?t2 = modifiedPages s1"
    unfolding flush_pages_modified by blast
  have "flush_finish e ?t2 = ?t2\<lparr>underlying := underlying s1\<rparr>"
    using flush_finish_frame[of e ?t2] u by simp
  also have "\<dots> = s1\<lparr>underlying := underlying s1, pages := pages s1,
                        modifiedPages := modifiedPages s1\<rparr>"
    by (subst flush_pages_frame) (simp add: p m)
  also have "\<dots> = s1" by simp
  finally show ?thesis unfolding s1_def .
qed

section \<open>The size of the LRU cache\<close>

lemma lru_ok_cong: "lru s2 = lru s \<Longrightarrow> maxPages s2 = maxPages s \<Longrightarrow> lru_ok s2 = lru_ok s"
  by (simp add: lru_ok_def)






























section \<open>The strict size limit\<close>

text \<open>
  C5, as the code has it. On an open store whose strict size limit is \<open>L\<close>, a read or a write
  whose range ends past \<open>L\<close> and at or below \<open>2 ^ 53\<close> (where the sums
  \<^verbatim>\<open>req.offset + req.size\<close> and \<^verbatim>\<open>req.offset + req.data.length\<close> are exact) fails with an error
  whose message contains \<^verbatim>\<open>exceeds strict size enforcement\<close>, and the store after the failure is
  the store before it: no page, no size and no other field has changed. The limit of a store
  is the option \<^verbatim>\<open>strictSizeEnforcement\<close> of its constructor until a layered store is constructed
  over it: that constructor overwrites the limit with its own option.
\<close>

theorem strict_limit_rejects:
  assumes "opened s" and "fileExists s" and "strictSizeLimit s = Some L"
  shows "(L < offset + n \<and> offset + n \<le> 2 ^ 53 \<longrightarrow>
            read offset n s = (Inl (Error ''Read exceeds strict size enforcement''), s)) \<and>
         (L < offset + length d \<and> offset + length d \<le> 2 ^ 53 \<longrightarrow>
            store_write offset d s =
              (Inl (Error ''Write exceeds strict size enforcement''), s)) \<and>
         msg_includes ''Read exceeds strict size enforcement''
           ''exceeds strict size enforcement'' \<and>
         msg_includes ''Write exceeds strict size enforcement''
           ''exceeds strict size enforcement''"
proof -
  have r: "msg_includes ''Read exceeds strict size enforcement''
             ''exceeds strict size enforcement''"
    unfolding msg_includes_def sublist_def
    by (rule exI[of _ "''Read ''"], rule exI[of _ "[]"]) simp
  have w: "msg_includes ''Write exceeds strict size enforcement''
             ''exceeds strict size enforcement''"
    unfolding msg_includes_def sublist_def
    by (rule exI[of _ "''Write ''"], rule exI[of _ "[]"]) simp
  from assms r w show ?thesis
    by (simp add: read_def store_write_def ensureOpen_def)
qed

theorem strict_limit_rejects_witness:
  "read 10 1 (opened_store 10 (Some 10)) =
     (Inl (Error ''Read exceeds strict size enforcement''), opened_store 10 (Some 10)) \<and>
   store_write 10 [88] (opened_store 10 (Some 10)) =
     (Inl (Error ''Write exceeds strict size enforcement''), opened_store 10 (Some 10))"
  using strict_limit_rejects [of "opened_store 10 (Some 10)" 10 10 1 "[88]"]
  by simp

text \<open>
  The claim as stated fails: a store built with the limit 10 rejects the write of one byte at
  offset 10; once a layer without a limit has been built over it, it accepts that write.
\<close>

theorem strict_limit_overwritten_counterexample:
  "opt_strictSizeEnforcement (small_opts 10 (Some 10)) = Some 10 \<and>
   fst (store_write 10 [88] (opened_store 10 (Some 10))) =
     Inl (Error ''Write exceeds strict size enforcement'') \<and>
   fst (store_write 10 [88]
          (layer (underlying
             (constructor (Layered (opened_store 10 (Some 10)) :: (lstore, unit) storage)
                (small_opts 10 None))))) = Inr ()"
  by (simp add: constructor_def construct_def small_opts_def eval_defs writeNext.simps)

section \<open>Construction over another layered store\<close>

text \<open>
  C8, as the code has it. The constructor assigns the new store's strict size limit (its
  option \<^verbatim>\<open>strictSizeEnforcement\<close>, also when that is not given) to the underlying store when
  the underlying store is a layered store, and leaves every other field of it alone; an
  underlying storage of another kind is not changed.
\<close>

theorem constructor_passes_strict_limit_down:
  "underlying (constructor (Layered l) opts) =
     Layered (l\<lparr>strictSizeLimit := opt_strictSizeEnforcement opts\<rparr>) \<and>
   underlying (constructor (Other b) opts) = Other b \<and>
   strictSizeLimit (constructor u opts) = opt_strictSizeEnforcement opts"
  by (cases u) (simp_all add: constructor_def construct_def)

text \<open>
  The claim as stated fails: a layer with the limit 10, put under a new layer that is built
  without a limit, has lost its limit.
\<close>

theorem nested_strict_limit_counterexample:
  "strictSizeLimit
     (layer (underlying
        (constructor (Layered (opened_store 10 (Some 10))) (small_opts 10 None))))
   \<noteq> strictSizeLimit (opened_store 10 (Some 10))"
  by (simp add: constructor_def construct_def small_opts_def)

section \<open>Trailing delete\<close>

lemma deleteNext_size:
  "0 < pageSize s \<Longrightarrow> offset = req_offset + bytesDeleted \<Longrightarrow> end = overlay_size s \<Longrightarrow>
   fst (deleteNext req_offset end bytesDeleted offset s) = Inr () \<and>
   overlay_size (snd (deleteNext req_offset end bytesDeleted offset s)) = req_offset"
proof (induction req_offset "end" bytesDeleted offset s rule: deleteNext.induct)
  case (1 req_offset "end" bytesDeleted offset s)
  show ?case
  proof (cases "bytesDeleted \<ge> end - req_offset")
    case True
    then show ?thesis using "1.prems" by (simp add: deleteNext.simps)
  next
    case False
    with "1.prems" have adv: "\<not> (pageSize s = 0 \<or> end \<le> offset)" by auto
    obtain r s1 where g: "getPage (offset div pageSize s) s = (r, s1)"
      by (cases "getPage (offset div pageSize s) s")
    note fr = getPage_frame[OF g]
    show ?thesis
      using False adv g fr "1.prems" "1.IH"
      by (subst (1 2) deleteNext.simps) (auto simp: Let_def split: sum.splits)
  qed
qed

text \<open>
  C6. On an open store, a delete whose range reaches the current size or goes past it
  (\<open>sz\<close> may be \<open>\<infinity>\<close>) completes without error and leaves the size at \<open>offset\<close>.
\<close>

theorem del_trailing_sets_size:
  assumes "opened s" and "0 < pageSize s" and "enat (overlay_size s) \<le> enat offset + sz"
  shows "fst (del offset sz s) = Inr () \<and> overlay_size (snd (del offset sz s)) = offset"
proof -
  have e: "(if sz = \<infinity> \<or> enat offset + sz > enat (overlay_size s)
            then overlay_size s else offset + the_enat sz) = overlay_size s"
    using assms(3) by (cases sz) auto
  show ?thesis
    using assms(1) deleteNext_size[OF assms(2), of offset offset 0 "overlay_size s"]
    by (simp add: del_def ensureOpen_opened e Let_def)
qed

theorem del_trailing_sets_size_witness:
  "fst (del 3 \<infinity> (snd (store_write 0 [1, 2, 3, 4, 5, 6] (opened_store 10 None)))) = Inr () \<and>
   overlay_size (snd (del 3 \<infinity> (snd (store_write 0 [1, 2, 3, 4, 5, 6] (opened_store 10 None)))))
     = 3"
proof -
  let ?s = "snd (store_write 0 [1, 2, 3, 4, 5, 6] (opened_store 10 None))"
  have "opened ?s" and "0 < pageSize ?s"
    by (simp_all add: eval_defs writeNext.simps)
  moreover have "enat (overlay_size ?s) \<le> enat 3 + \<infinity>" by simp
  ultimately show ?thesis using del_trailing_sets_size[of ?s 3 \<infinity>] by blast
qed

section \<open>Truncate and the pin set\<close>

text \<open>
  C10, as the code has it. A shrinking truncate on an open store whose size is at most
  \<open>2 ^ 53\<close> (where \<^verbatim>\<open>Math.floor(newSize / this.pageSize)\<close> is exact) takes out of the pin set the
  indices of the pages that are resident with an index above \<open>newSize div pageSize\<close>, and the
  boundary index when \<open>newSize\<close> is a multiple of the page size and the boundary page is
  resident. Every other pin stays: the loop of \<^verbatim>\<open>_truncate\<close> runs over the keys of \<^verbatim>\<open>_pages\<close>.
\<close>

theorem truncate_shrink_unpins_resident:
  assumes "opened s" and "newSize \<le> overlay_size s" and "overlay_size s \<le> 2 ^ 53"
  shows "pinnedPages (snd (truncate newSize s)) =
           pinnedPages s
           - {i \<in> fst ` set (pages s). newSize div pageSize s < i}
           - (if newSize mod pageSize s = 0 \<and> newSize div pageSize s \<in> fst ` set (pages s)
              then {newSize div pageSize s} else {})"
proof -
  let ?s1 = "s\<lparr>overlay_size := newSize\<rparr>"
  let ?b = "newSize div pageSize s"
  let ?xs = "filter (\<lambda>index. index > ?b) (map fst (pages ?s1))"
  let ?s2 = "fold removePage ?xs ?s1"
  have xs: "set ?xs = {i \<in> fst ` set (pages s). ?b < i}" by auto
  have p2: "pinnedPages ?s2 = pinnedPages s - {i \<in> fst ` set (pages s). ?b < i}"
    by (simp only: fold_removePage_pinned xs) simp
  have m2: "map_of (pages ?s2) ?b = map_of (pages s) ?b"
    by (simp only: fold_removePage_pages xs) simp
  have ps2: "pageSize ?s2 = pageSize s" by (simp add: fold_removePage_frame)
  have none_iff: "map_of (pages s) ?b = None \<longleftrightarrow> ?b \<notin> fst ` set (pages s)"
    by (simp add: map_of_eq_None_iff)
  show ?thesis
  proof (cases "map_of (pages s) ?b")
    case None
    with assms(1,2) m2 p2 ps2 none_iff show ?thesis
      by (simp add: truncate_def ensureOpen_opened Let_def split: sum.splits)
  next
    case (Some lastPage)
    with assms(1,2) m2 p2 ps2 none_iff show ?thesis
      by (simp add: truncate_def ensureOpen_opened Let_def removePage_eq split: sum.splits)
  qed
qed

text \<open>
  Pages 0 to 3 are resident and pages 0 to 4 are pinned; the truncate to 4 bytes unpins the
  resident pages 1, 2 and 3 and keeps the pin of page 4, which is not resident.
\<close>

theorem truncate_shrink_unpins_resident_witness:
  "pinnedPages
     (snd (truncate 4
        (pin 0 20 (snd (store_write 2 [1, 2, 3, 4, 5, 6, 7, 8, 9, 10, 11] (opened_store 10 None))))))
   = {0, 4}"
proof -
  let ?s = "pin 0 20 (snd (store_write 2 [1, 2, 3, 4, 5, 6, 7, 8, 9, 10, 11] (opened_store 10 None)))"
  have o: "opened ?s" and sz: "4 \<le> overlay_size ?s" and b: "overlay_size ?s \<le> 2 ^ 53"
    by (simp_all add: eval_defs writeNext.simps)
  have pg: "fst ` set (pages ?s) = {0, 1, 2, 3}" and ps: "pageSize ?s = 4"
    by (auto simp add: eval_defs writeNext.simps)
  have pn: "pinnedPages ?s = {0..<5}"
    by (simp add: pin_pinned) (simp add: eval_defs writeNext.simps)
  show ?thesis
    unfolding truncate_shrink_unpins_resident[OF o sz b] pg pn ps by auto
qed

text \<open>
  The claim as stated fails: page 10 is pinned and not resident, and its pin is still there
  after the truncate to 0 bytes.
\<close>

theorem pins_survive_truncate_counterexample:
  "0 \<le> overlay_size (pin 40 1 (opened_store 10 None)) \<and>
   fst (truncate 0 (pin 40 1 (opened_store 10 None))) = Inr () \<and>
   0 div pageSize (pin 40 1 (opened_store 10 None)) < 10 \<and>
   10 \<in> pinnedPages (snd (truncate 0 (pin 40 1 (opened_store 10 None))))"
  by (simp add: eval_defs)

section \<open>Read your writes\<close>

text \<open>
  C1. On an open store without a bitmask, when \<open>store_write ro d\<close> has completed without
  error (so no strict size limit was violated), the read of \<open>length d\<close> bytes at \<open>ro\<close> completes
  without error and returns \<open>d\<close>. The written range ends at or below \<open>2 ^ 53\<close>, where the
  offsets that \<^verbatim>\<open>_write\<close> and \<^verbatim>\<open>_read\<close> add up are exact. The theorem also covers the empty
  buffer.
\<close>

theorem read_your_writes:
  assumes "opened s" and "fileExists s" and "0 < pageSize s" and "bitmask s = None"
    and "ro + length d \<le> 2 ^ 53"
    and "store_write ro d s = (Inr (), s')"
  shows "fst (read ro (length d) s') = Inr d"
proof -
  note wn = store_write_ok[OF assms(1,6)]
  note fr = writeNext_frame[OF wn(1)]
  have wp: "write_post s ro d ro s' q" for q
    by (rule writeNext_post[OF _ wn(1)]) simp
  have pass: "chunk_passes s ro (ro + length d) q" for q
    using assms(4) by (simp add: chunk_passes_def)
  have ps': "0 < pageSize s'" using fr assms(3) by simp
  have wr: "\<exists>pg'. map_of (pages s') (x div pageSize s') = Some pg' \<and>
              x mod pageSize s' < length (data pg') \<and>
              data pg' ! (x mod pageSize s') = d ! (x - ro)"
    if "ro \<le> x" "x < ro + length d" for x
    using write_post_written[OF assms(3) wp pass refl that] fr by simp
  have res: "\<forall>x. ro \<le> x \<and> x < ro + length d \<longrightarrow> map_of (pages s') (x div pageSize s') \<noteq> None"
    using wr by fastforce
  from readNext_resident[OF ps', of ro ro 0 "alloc (length d)" "length d"] res
  obtain buf' s'' where
    r: "readNext (length d) (alloc (length d)) 0 ro s' = (Inr buf', s'')" and
    l: "length buf' = length d" and
    v: "\<And>k. k < length d \<Longrightarrow> buf' ! k = read_byte s' (ro + k) (alloc (length d) ! k)"
    by (auto simp: alloc_def)
  have "buf' ! k = d ! k" if "k < length d" for k
  proof -
    from wr[of "ro + k"] that obtain pg' where
      "map_of (pages s') ((ro + k) div pageSize s') = Some pg'"
      "(ro + k) mod pageSize s' < length (data pg')"
      "data pg' ! ((ro + k) mod pageSize s') = d ! k"
      by auto
    then show ?thesis using v[OF that] by (simp add: read_byte_def)
  qed
  with l have "buf' = d" by (simp add: nth_equalityI)
  moreover have "read ro (length d) s' = readNext (length d) (alloc (length d)) 0 ro s'"
    using fr assms(1,2) wn(2)
    by (auto simp: read_def ensureOpen_opened split: option.splits)
  ultimately show ?thesis using r by simp
qed

theorem read_your_writes_witness:
  "fst (read 2 7 (snd (store_write 2 [1, 2, 3, 4, 5, 6, 7] (opened_store 2 None))))
   = Inr [1, 2, 3, 4, 5, 6, 7]"
proof -
  let ?d = "[1, 2, 3, 4, 5, 6, 7] :: buffer"
  have w: "fst (store_write 2 ?d (opened_store 2 None)) = Inr ()"
    by (simp add: eval_defs writeNext.simps)
  have b: "2 + length ?d \<le> 2 ^ 53" by simp
  have "fst (read 2 (length ?d) (snd (store_write 2 ?d (opened_store 2 None)))) = Inr ?d"
    by (rule read_your_writes[OF _ _ _ _ b eval_pair[OF w]]) simp_all
  then show ?thesis by (simp add: eval_nat_numeral)
qed

section \<open>The rest of a written page\<close>

text \<open>
  C2, as the code has it. On an open store, after \<open>store_write ro d\<close> has completed without
  error, for a written range that ends at or below \<open>2 ^ 53\<close> (where the offsets that \<^verbatim>\<open>_write\<close>
  adds up are exact): a byte \<open>x\<close> outside \<open>[ro, ro + length d)\<close> that lies in a page to which
  the write has written (the page is in range and its subrange has passed the bitmask gate,
  which every subrange does when there is no bitmask) reads back as it would have read before
  the write. In particular, when the page was not resident before the write, the backend can
  be read, and \<open>x\<close> lies below the size and the strict limit, the byte that reads back is byte
  \<open>x\<close> of the backend. A page of the range whose subrange the bitmask gate skips is not
  loaded, and its bytes are not covered: the write still grows the size, and a byte of the
  skipped page that lies past the old size can read differently afterwards.
\<close>

theorem write_keeps_rest_of_page:
  assumes "opened s" and "fileExists s" and "0 < pageSize s"
    and "store_write ro d s = (Inr (), s')"
    and "page_in_range ro (ro + length d) (pageSize s) (x div pageSize s)"
    and "chunk_passes s ro (ro + length d) (x div pageSize s)"
    and "x < ro \<or> ro + length d \<le> x"
    and "ro + length d \<le> 2 ^ 53"
  shows "fst (read x 1 s') = fst (read x 1 s) \<and>
         (map_of (pages s) (x div pageSize s) = None \<and> supports s ''read'' \<and>
          x < overlay_size s \<and>
          (case strictSizeLimit s of None \<Rightarrow> True | Some l \<Rightarrow> x + 1 \<le> l) \<longrightarrow>
          fst (read x 1 s') = Inr [contents (underlying s) ! x])"
proof -
  let ?q = "x div pageSize s"
  note wn = store_write_ok[OF assms(1,4)]
  note fr = writeNext_frame[OF wn(1)]
  have wp: "write_post s ro d ro s' ?q"
    by (rule writeNext_post[OF _ wn(1)]) simp
  from write_post_unwritten[OF assms(3) wp assms(5,6) refl assms(7)]
  obtain pg0 pg' where g0: "fst (getPage ?q s) = Inr pg0"
    and pg': "map_of (pages s') ?q = Some pg'"
    and b: "byte_at (data pg') (x mod pageSize s) = byte_at (data pg0) (x mod pageSize s)"
    by blast
  have g': "fst (getPage ?q s') = Inr pg'" using pg' by (simp add: getPage_def)
  have o': "opened s'" and ps': "0 < pageSize s'" using fr assms(1,3) by simp_all
  have eq: "fst (read x 1 s') = fst (read x 1 s)"
    unfolding read_one[OF o' ps'] read_one[OF assms(1,3)] using fr g0 g' b by simp
  have "fst (read x 1 s) = Inr [contents (underlying s) ! x]"
    if "map_of (pages s) ?q = None" "supports s ''read''" "x < overlay_size s"
       "(case strictSizeLimit s of None \<Rightarrow> True | Some l \<Rightarrow> x + 1 \<le> l)"
  proof -
    from g0 that(1) have f: "fetchPage ?q s = Inr pg0"
      by (simp add: getPage_def loadPage_fetch split: sum.splits)
    from fetchPage_byte[OF f assms(2) that(2) assms(3) refl that(3)] g0 that(4) assms(2)
    show ?thesis unfolding read_one[OF assms(1,3)] by (auto split: option.splits)
  qed
  with eq show ?thesis by simp
qed

theorem write_keeps_rest_of_page_witness:
  "fst (read 2 1 (snd (store_write 1 [5] flushed_store))) = Inr [7]"
proof -
  have w: "fst (store_write 1 [5] flushed_store) = Inr ()"
    by (simp add: flushed_store_eq eval_defs writeNext.simps)
  have "page_in_range 1 (1 + length [5::byte]) (pageSize flushed_store) (2 div pageSize flushed_store)"
    and "chunk_passes flushed_store 1 (1 + length [5::byte]) (2 div pageSize flushed_store)"
    by (simp_all add: flushed_store_eq chunk_defs)
  note t = write_keeps_rest_of_page[OF _ _ _ eval_pair[OF w] this, THEN conjunct2]
  have h: "map_of (pages flushed_store) (2 div pageSize flushed_store) = None \<and>
           supports flushed_store ''read'' \<and> 2 < overlay_size flushed_store \<and>
           (case strictSizeLimit flushed_store of None \<Rightarrow> True | Some l \<Rightarrow> 2 + 1 \<le> l)"
    by (simp add: flushed_store_eq supports_def memory_def)
  have c: "contents (underlying flushed_store) ! 2 = 7" by (simp add: flushed_store_eq)
  have "fst (read 2 1 (snd (store_write 1 [5] flushed_store)))
        = Inr [contents (underlying flushed_store) ! 2]"
    by (rule t[THEN mp, OF _ _ _ _ _ h]) (simp_all add: flushed_store_eq)
  then show ?thesis unfolding c .
qed

text \<open>
  The claim as stated fails for a page that the bitmask skips. The backend holds eight bytes,
  the overlay has the size 4 and no resident page, and bit 6 of the bitmask is not set. The
  write of one byte at offset 6 is skipped and grows the size to 7; byte 4, which lies in the
  page of byte 6, read as 0 before the write and reads as 5, the byte of the backend, after it.
\<close>

theorem skipped_page_rest_counterexample:
  "fst (store_write 6 [1] stale_store) = Inr () \<and>
   page_in_range 6 (6 + length [1 :: byte]) (pageSize stale_store) (4 div pageSize stale_store) \<and>
   fst (read 4 1 stale_store) = Inr [0] \<and>
   fst (read 4 1 (snd (store_write 6 [1] stale_store))) = Inr [5]"
  by (simp add: stale_store_eq chunk_defs eval_defs writeNext.simps readNext.simps)

section \<open>Subranges that the bitmask skips\<close>

text \<open>
  C4, as the code has it. On an open store, after \<open>store_write ro d\<close> has completed without
  error, for a written range that ends at or below \<open>2 ^ 53\<close> (where the sum
  \<^verbatim>\<open>req.offset + req.data.length\<close> is exact): a page in range whose subrange has not passed
  the bitmask gate has the entry in the page map that it had before (so its bytes, its
  buffer's length and its dirty flag are as before, and a page that was not resident has not
  been loaded) and is in the dirty set if and only if it was; the size is the maximum of the
  old size and \<open>ro + length d\<close>, whatever was skipped; and when every subrange was skipped,
  the size is the only field of the store that the write has changed.
\<close>

theorem skipped_subrange_untouched:
  assumes "opened s" and "0 < pageSize s" and "store_write ro d s = (Inr (), s')"
    and "ro + length d \<le> 2 ^ 53"
  shows "(page_in_range ro (ro + length d) (pageSize s) q \<and>
          \<not> chunk_passes s ro (ro + length d) q \<longrightarrow>
            map_of (pages s') q = map_of (pages s) q \<and>
            (q \<in> modifiedPages s' \<longleftrightarrow> q \<in> modifiedPages s)) \<and>
         overlay_size s' = max (overlay_size s) (ro + length d) \<and>
         ((\<forall>p. page_in_range ro (ro + length d) (pageSize s) p \<longrightarrow>
                \<not> chunk_passes s ro (ro + length d) p) \<longrightarrow>
            s' = s\<lparr>overlay_size := max (overlay_size s) (ro + length d)\<rparr>)"
proof -
  note wn = store_write_ok[OF assms(1,3)]
  note fr = writeNext_frame[OF wn(1)]
  have wp: "write_post s ro d ro s' q"
    by (rule writeNext_post[OF _ wn(1)]) simp
  have 1: "page_in_range ro (ro + length d) (pageSize s) q \<and>
          \<not> chunk_passes s ro (ro + length d) q \<longrightarrow>
            map_of (pages s') q = map_of (pages s) q \<and>
            (q \<in> modifiedPages s' \<longleftrightarrow> q \<in> modifiedPages s)"
    using wp by (simp add: write_post_def Let_def)
  have 2: "overlay_size s' = max (overlay_size s) (ro + length d)" using fr by simp
  have 3: "s' = s\<lparr>overlay_size := max (overlay_size s) (ro + length d)\<rparr>"
    if "\<forall>p. page_in_range ro (ro + length d) (pageSize s) p \<longrightarrow>
                \<not> chunk_passes s ro (ro + length d) p"
    using writeNext_all_skipped[OF assms(2) _ that, of 0] wn(1) by simp
  from 1 2 3 show ?thesis by blast
qed

text \<open>
  With pages of four bytes and the bitmask \<open>[15]\<close>, a write of six bytes at 0 writes page 0
  and skips page 1.
\<close>

theorem skipped_subrange_untouched_witness:
  "map_of (pages (snd (store_write 0 [1, 2, 3, 4, 5, 6] masked_store))) 1 = None \<and>
   1 \<notin> modifiedPages (snd (store_write 0 [1, 2, 3, 4, 5, 6] masked_store)) \<and>
   overlay_size (snd (store_write 0 [1, 2, 3, 4, 5, 6] masked_store)) = 6"
proof -
  have "page_in_range 0 (0 + length [1, 2, 3, 4, 5, 6 :: byte]) (pageSize masked_store) 1 \<and>
        \<not> chunk_passes masked_store 0 (0 + length [1, 2, 3, 4, 5, 6 :: byte]) 1"
    by (simp add: chunk_defs isBitSet_def bitSetAt_def)
  with skipped_subrange_untouched[OF _ _ eval_pair[OF masked_write_ok], of 1]
  show ?thesis by simp
qed

text \<open>
  The claim as stated fails: the only subrange of this write is skipped, and the size has grown
  from 0 to 1.
\<close>

theorem skipped_write_grows_size_counterexample:
  "\<not> isBitSet (setBitmask [0] (opened_store 10 None)) 0 1 \<and>
   fst (store_write 0 [5] (setBitmask [0] (opened_store 10 None))) = Inr () \<and>
   overlay_size (snd (store_write 0 [5] (setBitmask [0] (opened_store 10 None))))
     \<noteq> overlay_size (setBitmask [0] (opened_store 10 None))"
  by (simp add: eval_defs writeNext.simps)

section \<open>The bitmask gate\<close>

text \<open>
  C3, as the code has it. With a bitmask installed, after \<open>store_write ro d\<close> has completed
  without error on an open store, for a byte offset \<open>x\<close> in \<open>[ro, ro + length d)\<close>: when every bit
  of the per-page subrange that holds \<open>x\<close> is set (\<open>chunk_passes\<close>), the overlay holds \<open>d ! (x - ro)\<close>
  at \<open>x\<close> and a read returns it; when some bit of that subrange is not set (a bit past the end
  of the bitmask is not set), the page of \<open>x\<close> is as it was, so the overlay's byte at \<open>x\<close> has
  not changed, whatever bit \<open>x\<close> of the bitmask is.
\<close>

theorem bitmask_gates_subranges:
  assumes "opened s" and "fileExists s" and "0 < pageSize s" and "bitmask s = Some B"
    and "store_write ro d s = (Inr (), s')" and "ro \<le> x" and "x < ro + length d"
  shows "(chunk_passes s ro (ro + length d) (x div pageSize s) \<longrightarrow>
            overlay_byte s' x = Some (d ! (x - ro)) \<and> fst (read x 1 s') = Inr [d ! (x - ro)]) \<and>
         (\<not> chunk_passes s ro (ro + length d) (x div pageSize s) \<longrightarrow>
            map_of (pages s') (x div pageSize s) = map_of (pages s) (x div pageSize s) \<and>
            overlay_byte s' x = overlay_byte s x)"
proof -
  let ?q = "x div pageSize s"
  note wn = store_write_ok[OF assms(1,5)]
  note fr = writeNext_frame[OF wn(1)]
  have wp: "write_post s ro d ro s' ?q"
    by (rule writeNext_post[OF _ wn(1)]) simp
  have ir: "page_in_range ro (ro + length d) (pageSize s) ?q"
    using page_in_range_iff[OF assms(3), of ro "ro + length d" ?q] assms(6,7) by blast
  have o': "opened s'" and ps': "0 < pageSize s'" using fr assms(1,3) by simp_all
  have a: "overlay_byte s' x = Some (d ! (x - ro)) \<and> fst (read x 1 s') = Inr [d ! (x - ro)]"
    if pass: "chunk_passes s ro (ro + length d) ?q"
  proof -
    from write_post_written[OF assms(3) wp pass refl assms(6,7)]
    obtain pg' where pg': "map_of (pages s') ?q = Some pg'"
      and l: "x mod pageSize s < length (data pg')"
      and v: "data pg' ! (x mod pageSize s) = d ! (x - ro)" by blast
    have g': "fst (getPage ?q s') = Inr pg'" using pg' by (simp add: getPage_def)
    have st: "\<not> (case strictSizeLimit s of None \<Rightarrow> False | Some l \<Rightarrow> x + 1 > l)"
      using wn(2) assms(7) by (auto split: option.splits)
    show ?thesis
      unfolding read_one[OF o' ps'] using fr pg' l v g' st assms(2)
      by (simp add: overlay_byte_def byte_at_def)
  qed
  have b: "map_of (pages s') ?q = map_of (pages s) ?q \<and> overlay_byte s' x = overlay_byte s x"
    if "\<not> chunk_passes s ro (ro + length d) ?q"
    using wp that fr by (simp add: write_post_def Let_def overlay_byte_def)
  from a b show ?thesis by blast
qed

theorem bitmask_gates_subranges_witness:
  "overlay_byte (snd (store_write 0 [1, 2, 3, 4, 5, 6] masked_store)) 1 = Some 2 \<and>
   fst (read 1 1 (snd (store_write 0 [1, 2, 3, 4, 5, 6] masked_store))) = Inr [2]"
proof -
  have "chunk_passes masked_store 0 (0 + length [1, 2, 3, 4, 5, 6 :: byte])
          (1 div pageSize masked_store)"
    by (simp add: chunk_defs isBitSet_def bitSetAt_def upt_rec_numeral)
  with bitmask_gates_subranges[OF _ _ _ _ eval_pair[OF masked_write_ok], of "[15]" 1]
  show ?thesis by simp
qed

text \<open>
  The claim as stated fails: bit 0 of the bitmask \<open>[1]\<close> is set, bit 1 is not, and a write of
  \<open>[5, 6]\<close> at 0 leaves byte 0 at its old value 9, because the subrange is skipped as a whole.
\<close>

theorem bitmask_iff_counterexample:
  "bitSetAt [1] 0 \<and>
   fst (store_write 0 [5, 6] (setBitmask [1] (snd (store_write 0 [9, 9] (opened_store 10 None)))))
     = Inr () \<and>
   fst (read 0 1 (setBitmask [1] (snd (store_write 0 [9, 9] (opened_store 10 None))))) = Inr [9] \<and>
   fst (read 0 1 (snd (store_write 0 [5, 6]
          (setBitmask [1] (snd (store_write 0 [9, 9] (opened_store 10 None)))))))
     = Inr [9]"
  by (simp add: eval_defs writeNext.simps readNext.simps)

section \<open>Flushing twice\<close>

text \<open>
  C7, as the code has it. For a range that ends at or below \<open>2 ^ 53\<close> (where the end and the
  page indices that \<^verbatim>\<open>_performFlush\<close> computes are exact), on an open store
  \<open>flush offset sz\<close> completes without error, and a
  second \<open>flush offset sz\<close> right after it completes without error and returns the store that the
  first flush left: overlay and backend are the same. After the first flush none of the pages
  that the flush visits is dirty, so the second flush finds no dirty page; the pages visited
  are those of \<open>[offset, offset + min sz size)\<close>, because flush clips its size to the size of the
  overlay. The dirty set after the flush is the old dirty set without the visited pages that
  were resident and dirty.
\<close>

theorem flush_twice:
  assumes "opened s" and "offset + sz \<le> 2 ^ 53"
  shows "fst (flush offset sz s) = Inr () \<and>
         flush offset sz (snd (flush offset sz s)) = (Inr (), snd (flush offset sz s)) \<and>
         (\<forall>q\<in>set (flushed_pages s offset sz).
            \<not> is_dirty (pages (snd (flush offset sz s))) q) \<and>
         modifiedPages (snd (flush offset sz s)) =
           modifiedPages s - {q \<in> set (flushed_pages s offset sz). is_dirty (pages s) q}"
proof -
  define e where "e = offset + min sz (overlay_size s)"
  define sp where "sp = offset div pageSize s"
  define ep where "ep = (e - 1) div pageSize s"
  define qs where "qs = flushed_pages s offset sz"
  define s1 where "s1 = flush_finish e (fold (flush_page offset e sp ep) qs s)"
  have s1: "flush offset sz s = (Inr (), s1)"
    unfolding s1_def qs_def ep_def sp_def e_def by (rule flush_eq[OF assms(1)])
  have o1: "opened s1" and z1: "overlay_size s1 = overlay_size s"
    and p1: "pageSize s1 = pageSize s"
    and pg1: "pages s1 = fold clean_page qs (pages s)"
    and m1: "modifiedPages s1 = modifiedPages s - {q \<in> set qs. is_dirty (pages s) q}"
    unfolding s1_def using assms(1)
    by (simp_all add: flush_finish_fields flush_pages_fields flush_pages_modified)
  have qs1: "flushed_pages s1 offset sz = qs"
    unfolding qs_def flushed_pages_def z1 p1 ..
  have "flush offset sz s1 =
          (Inr (), flush_finish e (fold (flush_page offset e sp ep) qs s1))"
    unfolding flush_eq[OF o1] qs1 z1 p1 e_def sp_def ep_def ..
  also have "flush_finish e (fold (flush_page offset e sp ep) qs s1) = s1"
    unfolding s1_def by (rule flush_fixpoint)
  finally have 2: "flush offset sz s1 = (Inr (), s1)" .
  have 3: "\<forall>q\<in>set qs. \<not> is_dirty (pages s1) q"
    unfolding pg1 by (simp add: fold_clean_clean)
  show ?thesis
    unfolding s1 fst_conv snd_conv qs_def[symmetric] using 2 3 m1 by blast
qed

theorem flush_twice_witness:
  "flush 0 9 (snd (flush 0 9 (snd (store_write 2 [1, 2, 3, 4, 5, 6, 7] (opened_store 10 None)))))
   = (Inr (), snd (flush 0 9 (snd (store_write 2 [1, 2, 3, 4, 5, 6, 7] (opened_store 10 None)))))"
proof -
  have "opened (snd (store_write 2 [1, 2, 3, 4, 5, 6, 7] (opened_store 10 None)))"
    by (simp add: eval_defs writeNext.simps)
  moreover have "(0::nat) + 9 \<le> 2 ^ 53" by simp
  ultimately show ?thesis using flush_twice[of _ 0 9] by blast
qed

text \<open>
  The claim as stated fails for a size past the size of the overlay: the store has size 2, its
  page 1 holds the bytes 4 to 7 and is dirty, and it is still dirty after two calls of
  \<open>flush 0 8\<close>, which flush the range \<open>[0, 2)\<close>.
\<close>

theorem flush_range_counterexample:
  "overlay_size shrunk_store = 2 \<and>
   fst (flush 0 8 shrunk_store) = Inr () \<and>
   fst (flush 0 8 (snd (flush 0 8 shrunk_store))) = Inr () \<and>
   is_dirty (pages (snd (flush 0 8 (snd (flush 0 8 shrunk_store))))) 1 \<and>
   1 \<in> modifiedPages (snd (flush 0 8 (snd (flush 0 8 shrunk_store))))"
  by (simp add: shrunk_store_def eval_defs writeNext.simps deleteNext.simps flush_def
      performFlush_def is_dirty_def)

section \<open>Resident pages and \<open>maxPages\<close>\<close>



end
